theory Spec2Isabelle
  imports Complex_Main "HOL-Library.Multiset"
begin

section \<open>Data model (types.ts)\<close>

text \<open>
  \<^verbatim>\<open>WordCard\<close> and \<^verbatim>\<open>MistakeRecord extends WordCard\<close> are records; the extension
  adds \<^verbatim>\<open>timestamp\<close> and \<^verbatim>\<open>consecutiveCorrect\<close>. Both numeric fields only ever hold
  integers in the program (\<^verbatim>\<open>Date.now()\<close>, and a counter that starts at 0 and is
  incremented by 1), so they are modelled as \<open>int\<close>.
\<close>

record WordCard =
  word :: string
  phonetic :: string
  meaning :: string
  options :: "string list"
  mnemonic :: string
  sentence :: string
  sentenceTranslation :: string

record MistakeRecord = WordCard +
  timestamp :: int
  consecutiveCorrect :: int

datatype AppStatus = IDLE | LOADING | QUIZ | REVIEW | MISTAKES

text \<open>A rejected promise or a thrown exception carries an error value.\<close>

datatype error = ProviderError string

section \<open>The component state of App\<close>

text \<open>
  Every \<^verbatim>\<open>useState\<close> cell and the \<^verbatim>\<open>initFetchPromise\<close> ref of \<^verbatim>\<open>App\<close> is a field.
  The promise held by the ref is represented by the outcome it settles to. What the
  program has started and not yet finished is part of the state as well:
  \<^item> \<open>pendingReveal\<close>: the callbacks registered with \<^verbatim>\<open>setTimeout\<close> in
    \<^verbatim>\<open>handleAnswer\<close> (each closure captures the submitted option; all have the same
    delay, so they fire in order);
  \<^item> \<open>pendingStart\<close>: the calls of \<^verbatim>\<open>startSession\<close> suspended at their \<^verbatim>\<open>await\<close>, each
    with the prefetch promise it awaits (\<open>Some\<close> of its outcome), or \<open>None\<close> when it
    awaits a \<^verbatim>\<open>fetchWordBatch()\<close> of its own;
  \<^item> \<open>pendingNext\<close>: the number of \<^verbatim>\<open>fetchWordBatch()\<close> calls of \<^verbatim>\<open>nextWord\<close> whose
    \<^verbatim>\<open>then\<close>/\<^verbatim>\<open>catch\<close> handler has not run yet.
  \<open>alerts\<close> and \<open>console\<close> record the calls of \<^verbatim>\<open>alert\<close> and \<^verbatim>\<open>console.error\<close>.
\<close>

record app =
  status :: AppStatus
  words :: "WordCard list"
  currentIndex :: nat
  mistakes :: "MistakeRecord list"
  selectedOption :: "string option"
  wrongCandidates :: "string list"
  showReward :: bool
  reviewWord :: "MistakeRecord option"
  wordsSinceReview :: nat
  nextReviewThreshold :: int
  initFetchPromise :: "(error + WordCard list) option"
  pendingReveal :: "string list"
  pendingStart :: "(error + WordCard list) option list"
  pendingNext :: nat
  alerts :: "string list"
  console :: "error list"

text \<open>The initial values of the \<^verbatim>\<open>useState\<close> calls (lines 9-26); nothing is pending.\<close>

definition initial :: app where
  "initial = \<lparr> status = IDLE, words = [], currentIndex = 0, mistakes = [],
     selectedOption = None, wrongCandidates = [], showReward = False,
     reviewWord = None, wordsSinceReview = 0, nextReviewThreshold = 10,
     initFetchPromise = None, pendingReveal = [], pendingStart = [], pendingNext = 0,
     alerts = [], console = [] \<rparr>"

section \<open>Randomness and double arithmetic\<close>

text \<open>
  \<^verbatim>\<open>Math.random\<close> is represented by the stream of the values it will return.
  \<open>Math_random\<close> returns the next value and the rest of the stream.
\<close>

type_synonym rng = "nat \<Rightarrow> real"

definition Math_random :: "rng \<Rightarrow> real \<times> rng" where
  "Math_random g = (g 0, \<lambda>n. g (Suc n))"

text \<open>
  A JavaScript number is a double. The product of two doubles is the exact product
  rounded to the nearest double, ties to the even significand. A positive double
  with binary exponent \<open>e\<close> is a multiple of \<open>2 ^ (e - 52)\<close>, its quantum; below
  \<open>2 ^ (- 1022)\<close> the exponent stays at \<open>- 1022\<close>. Overflow is left out: the products of
  this program are below \<open>2 ^ 32\<close>.
\<close>

definition round_half_even :: "real \<Rightarrow> int" where
  "round_half_even y =
     (let f = \<lfloor>y\<rfloor>
      in if y - of_int f < 1 / 2 then f
         else if y - of_int f > 1 / 2 then f + 1
         else if even f then f else f + 1)"

text \<open>
  The binary exponent of a positive number, found by halving or doubling it into
  \<open>[1, 2)\<close>; 1100 steps are more than the exponent of any double.
\<close>

fun binade :: "nat \<Rightarrow> real \<Rightarrow> int" where
  "binade 0 x = 0"
| "binade (Suc k) x =
     (if 2 \<le> x then binade k (x / 2) + 1
      else if x < 1 then binade k (x * 2) - 1
      else 0)"

definition exponent :: "real \<Rightarrow> int" where
  "exponent x = max (binade 1100 x) (- 1022)"

definition quantum :: "real \<Rightarrow> real" where
  "quantum x =
     (if 52 \<le> exponent x then 2 ^ nat (exponent x - 52)
      else 1 / 2 ^ nat (52 - exponent x))"

definition round_double :: "real \<Rightarrow> real" where
  "round_double x =
     (if x = 0 then 0
      else if 0 < x then quantum x * of_int (round_half_even (x / quantum x))
      else - (quantum (- x) * of_int (round_half_even (- x / quantum (- x)))))"

definition is_double :: "real \<Rightarrow> bool" where
  "is_double x \<longleftrightarrow> round_double x = x"

text \<open>The contract of \<^verbatim>\<open>Math.random\<close>: a double that is at least 0 and less than 1.\<close>

definition unit_interval :: "real \<Rightarrow> bool" where
  "unit_interval r \<longleftrightarrow> is_double r \<and> 0 \<le> r \<and> r < 1"

text \<open>\<^verbatim>\<open>xs[i]\<close> for a computed index: \<^verbatim>\<open>undefined\<close> outside the array.\<close>

definition at_index :: "'a list \<Rightarrow> int \<Rightarrow> 'a option" where
  "at_index xs i = (if 0 \<le> i \<and> i < int (length xs) then Some (xs ! nat i) else None)"

text \<open>
  \<^verbatim>\<open>(m.consecutiveCorrect || 0)\<close>: the left operand when it is truthy, else 0. On a
  number the only falsy integer is 0 itself.
\<close>

definition or_zero :: "int \<Rightarrow> int" where
  "or_zero n = (if n = 0 then 0 else n)"

section \<open>Operations of App\<close>

text \<open>\<^verbatim>\<open>resetCardState\<close> (lines 89-93).\<close>

definition resetCardState :: "app \<Rightarrow> app" where
  "resetCardState st = st\<lparr> selectedOption := None, wrongCandidates := [], showReward := False \<rparr>"

text \<open>\<^verbatim>\<open>const activeCard = reviewWord || words[currentIndex]\<close> (line 104).\<close>

definition activeCard :: "app \<Rightarrow> WordCard option" where
  "activeCard st =
     (case reviewWord st of
        Some r \<Rightarrow> Some (WordCard.truncate r)
      | None \<Rightarrow> at_index (words st) (int (currentIndex st)))"

text \<open>\<^verbatim>\<open>addToMistakes\<close> (lines 157-162); \<open>now\<close> is the value of \<^verbatim>\<open>Date.now()\<close>.\<close>

definition addToMistakes :: "int \<Rightarrow> WordCard \<Rightarrow> MistakeRecord list \<Rightarrow> MistakeRecord list" where
  "addToMistakes now wordToAdd prev =
     (if list_ex (\<lambda>m. word m = word wordToAdd) prev then prev
      else WordCard.extend wordToAdd (MistakeRecord.fields now 0) # prev)"

text \<open>\<^verbatim>\<open>removeMistake\<close> (lines 214-216).\<close>

definition removeMistake :: "string \<Rightarrow> MistakeRecord list \<Rightarrow> MistakeRecord list" where
  "removeMistake wordToRemove prev = filter (\<lambda>m. word m \<noteq> wordToRemove) prev"

text \<open>The two ledger updates of \<^verbatim>\<open>handleAnswer\<close> for a review word (lines 116-121, 143-148).\<close>

definition markCorrect :: "MistakeRecord \<Rightarrow> MistakeRecord list \<Rightarrow> MistakeRecord list" where
  "markCorrect r prev =
     map (\<lambda>m. if word m = word r
              then m\<lparr> consecutiveCorrect := or_zero (consecutiveCorrect m) + 1 \<rparr>
              else m) prev"

definition markIncorrect :: "MistakeRecord \<Rightarrow> MistakeRecord list \<Rightarrow> MistakeRecord list" where
  "markIncorrect r prev =
     map (\<lambda>m. if word m = word r then m\<lparr> consecutiveCorrect := 0 \<rparr> else m) prev"

text \<open>
  \<^verbatim>\<open>handleAnswer\<close> (lines 106-155). The \<^verbatim>\<open>setTimeout\<close> of the correct branch is
  recorded in \<open>pendingReveal\<close>; \<open>rewardTimeout\<close> below is its callback.
\<close>

definition handleAnswer :: "int \<Rightarrow> string \<Rightarrow> app \<Rightarrow> app" where
  "handleAnswer now option st =
     (case activeCard st of
        None \<Rightarrow> st
      | Some active \<Rightarrow>
          if option = meaning active then
            st\<lparr> showReward := True,
                mistakes := (case reviewWord st of
                               Some r \<Rightarrow> markCorrect r (mistakes st)
                             | None \<Rightarrow> mistakes st),
                pendingReveal := pendingReveal st @ [option] \<rparr>
          else if length (wrongCandidates st) = 0 then
            st\<lparr> wrongCandidates := wrongCandidates st @ [option] \<rparr>
          else
            st\<lparr> selectedOption := Some option,
                status := REVIEW,
                mistakes := (case reviewWord st of
                               Some r \<Rightarrow> markIncorrect r (mistakes st)
                             | None \<Rightarrow> addToMistakes now active (mistakes st)) \<rparr>)"

text \<open>The callback of the timer set at lines 124-128.\<close>

definition rewardTimeout :: "app \<Rightarrow> app" where
  "rewardTimeout st =
     (case pendingReveal st of
        [] \<Rightarrow> st
      | option # rest \<Rightarrow>
          st\<lparr> showReward := False, selectedOption := Some option, status := REVIEW,
              pendingReveal := rest \<rparr>)"

text \<open>\<^verbatim>\<open>mistakes.filter(m => (m.consecutiveCorrect || 0) < 3)\<close> (line 181).\<close>

definition reviewCandidates :: "MistakeRecord list \<Rightarrow> MistakeRecord list" where
  "reviewCandidates ms = filter (\<lambda>m. or_zero (consecutiveCorrect m) < 3) ms"

text \<open>
  \<^verbatim>\<open>Math.floor(Math.random() * n)\<close> for the value \<open>r\<close> returned by \<^verbatim>\<open>Math.random\<close>:
  the double product, then the floor. \<open>n\<close> is an array length or a small constant,
  which is a double as it is.
\<close>

definition random_below :: "real \<Rightarrow> nat \<Rightarrow> int" where
  "random_below r n = \<lfloor>round_double (r * real n)\<rfloor>"

text \<open>
  \<^verbatim>\<open>nextWord\<close> (lines 164-212), up to its return; \<open>g\<close> is the random stream. On the
  last card of a batch it sets the status to \<^verbatim>\<open>LOADING\<close>, calls \<^verbatim>\<open>fetchWordBatch()\<close>
  and returns; the handler of that promise runs later (\<open>nextWordFetched\<close>).
\<close>

definition nextWord :: "rng \<Rightarrow> app \<Rightarrow> app" where
  "nextWord g st0 =
     (let st = resetCardState st0 in
      case reviewWord st of
        Some r \<Rightarrow> st\<lparr> reviewWord := None, status := QUIZ \<rparr>
      | None \<Rightarrow>
         (let nextCounter = wordsSinceReview st + 1;
              cands = reviewCandidates (mistakes st)
          in if int nextCounter \<ge> nextReviewThreshold st \<and> length cands > 0 then
               (let (r1, g1) = Math_random g;
                    randomIndex = random_below r1 (length cands);
                    (r2, g2) = Math_random g1
                in st\<lparr> reviewWord := at_index cands randomIndex,
                       wordsSinceReview := 0,
                       nextReviewThreshold := random_below r2 11 + 10,
                       status := QUIZ \<rparr>)
             else if int (currentIndex st) < int (length (words st)) - 1 then
               st\<lparr> wordsSinceReview := nextCounter,
                   currentIndex := currentIndex st + 1,
                   status := QUIZ \<rparr>
             else
               st\<lparr> wordsSinceReview := nextCounter,
                   status := LOADING,
                   pendingNext := pendingNext st + 1 \<rparr>))"

text \<open>
  The handlers of lines 203-210, run when the promise of \<^verbatim>\<open>nextWord\<close> settles with
  \<open>fetched\<close>: \<^verbatim>\<open>then\<close> sets the batch, the index and the status, \<^verbatim>\<open>catch\<close> logs the
  error and sets the status. Neither touches any other state.
\<close>

definition nextWordFetched :: "(error + WordCard list) \<Rightarrow> app \<Rightarrow> app" where
  "nextWordFetched fetched st =
     (case fetched of
        Inr newWords \<Rightarrow> st\<lparr> words := newWords, currentIndex := 0, status := QUIZ \<rparr>
      | Inl e \<Rightarrow> st\<lparr> console := console st @ [e], status := IDLE \<rparr>)"

text \<open>
  \<^verbatim>\<open>startSession\<close> (lines 61-87), up to its \<^verbatim>\<open>await\<close>: the status becomes
  \<^verbatim>\<open>LOADING\<close>, and the call is suspended on the prefetch promise when the ref holds
  one, else on a \<^verbatim>\<open>fetchWordBatch()\<close> of its own.
\<close>

definition startSession :: "app \<Rightarrow> app" where
  "startSession st =
     st\<lparr> status := LOADING, pendingStart := pendingStart st @ [initFetchPromise st] \<rparr>"

text \<open>
  The rest of \<^verbatim>\<open>startSession\<close>, run when the awaited promise settles. \<open>awaited\<close> is
  the entry of \<open>pendingStart\<close>; \<open>fresh\<close> is the outcome of the call's own fetch, used
  when it did not await the prefetch. Line 69 clears the ref only on the prefetch
  path; the \<^verbatim>\<open>catch\<close> block clears it always.
\<close>

definition startSessionResumed ::
  "(error + WordCard list) option \<Rightarrow> (error + WordCard list) \<Rightarrow> app \<Rightarrow> app"
where
  "startSessionResumed awaited fresh st =
     (case (case awaited of Some p \<Rightarrow> p | None \<Rightarrow> fresh) of
        Inr newWords \<Rightarrow>
          (resetCardState
             (st\<lparr> initFetchPromise :=
                    (case awaited of Some p \<Rightarrow> None | None \<Rightarrow> initFetchPromise st),
                  words := newWords, currentIndex := 0,
                  reviewWord := None, wordsSinceReview := 0 \<rparr>))\<lparr> status := QUIZ \<rparr>
      | Inl e \<Rightarrow>
          st\<lparr> console := console st @ [e],
              alerts := alerts st @ [''Failed to load words. Please check your connection or API key.''],
              status := IDLE,
              initFetchPromise := None \<rparr>)"

text \<open>The condition of the \<^verbatim>\<open>if\<close> at line 183, on the state in which \<^verbatim>\<open>nextWord\<close> is called.\<close>

definition injects :: "app \<Rightarrow> bool" where
  "injects st \<longleftrightarrow> int (wordsSinceReview st + 1) \<ge> nextReviewThreshold st
                 \<and> length (reviewCandidates (mistakes st)) > 0"

section \<open>The user interface as events\<close>

text \<open>
  The handlers above are reached only through the controls that the render
  functions put on the screen, and each control is shown or enabled under a
  condition. \<open>accepts\<close> is the condition under which an option button of
  \<^verbatim>\<open>renderQuiz\<close> calls \<^verbatim>\<open>handleAnswer\<close> (lines 301-307: the quiz is rendered in
  status \<^verbatim>\<open>QUIZ\<close> for a defined active card, one button per option, disabled when
  the option is a wrong candidate or the reward is showing).
\<close>

definition accepts :: "app \<Rightarrow> string \<Rightarrow> bool" where
  "accepts st option \<longleftrightarrow>
     status st = QUIZ
   \<and> (case activeCard st of None \<Rightarrow> False | Some active \<Rightarrow> option \<in> set (options active))
   \<and> option \<notin> set (wrongCandidates st)
   \<and> \<not> showReward st"

datatype event =
    StartTraining
  | SessionSettled nat "error + WordCard list"
  | OpenNotebook
  | GoHome
  | ChooseOption int string
  | RewardTimeout
  | Continue rng
  | BatchSettled "error + WordCard list"
  | ManualAdd int
  | Remove string

text \<open>
  \<open>step\<close> applies one event; an event whose control is not on the screen, or is
  disabled, or for which nothing is pending, leaves the state as it is.
  \<^item> \<open>StartTraining\<close>: the button of \<^verbatim>\<open>renderWelcome\<close> (status \<^verbatim>\<open>IDLE\<close>);
  \<^item> \<open>SessionSettled k fresh\<close>: the promise awaited by the \<open>k\<close>-th suspended
    \<^verbatim>\<open>startSession\<close> settles, and the call runs to its end;
  \<^item> \<open>OpenNotebook\<close>: the button of \<^verbatim>\<open>renderWelcome\<close> (disabled for an empty ledger)
    or the one of the top bar (absent in \<^verbatim>\<open>IDLE\<close> and \<^verbatim>\<open>MISTAKES\<close>);
  \<^item> \<open>GoHome\<close>: the logo of the top bar, or \<^verbatim>\<open>Close\<close> in the notebook;
  \<^item> \<open>ChooseOption\<close>: an option button of \<^verbatim>\<open>renderQuiz\<close>;
  \<^item> \<open>RewardTimeout\<close>: the oldest pending timer fires;
  \<^item> \<open>Continue\<close>: the \<^verbatim>\<open>nextWord\<close> button of \<^verbatim>\<open>renderReview\<close>;
  \<^item> \<open>BatchSettled fetched\<close>: a pending fetch of \<^verbatim>\<open>nextWord\<close> settles, and its handler
    runs;
  \<^item> \<open>ManualAdd\<close>: the button of \<^verbatim>\<open>renderReview\<close>, present for a card that is
    neither a review word nor in the ledger;
  \<^item> \<open>Remove\<close>: the button on a record in \<^verbatim>\<open>renderMistakes\<close>.
  Between a call and the settling of its promise any other event may happen: the
  top bar stays on the screen while the status is \<^verbatim>\<open>LOADING\<close>.
\<close>

fun step :: "app \<Rightarrow> event \<Rightarrow> app" where
  "step st StartTraining =
     (if status st = IDLE then startSession st else st)"
| "step st (SessionSettled k fresh) =
     (if k < length (pendingStart st)
      then startSessionResumed (pendingStart st ! k) fresh
             (st\<lparr> pendingStart := take k (pendingStart st) @ drop (Suc k) (pendingStart st) \<rparr>)
      else st)"
| "step st OpenNotebook =
     (if (status st = IDLE \<and> length (mistakes st) \<noteq> 0)
        \<or> (status st \<noteq> MISTAKES \<and> status st \<noteq> IDLE)
      then st\<lparr> status := MISTAKES \<rparr> else st)"
| "step st GoHome = st\<lparr> status := IDLE \<rparr>"
| "step st (ChooseOption now option) =
     (if accepts st option then handleAnswer now option st else st)"
| "step st RewardTimeout = rewardTimeout st"
| "step st (Continue g) =
     (if status st = REVIEW \<and> activeCard st \<noteq> None then nextWord g st else st)"
| "step st (BatchSettled fetched) =
     (if 0 < pendingNext st
      then nextWordFetched fetched (st\<lparr> pendingNext := pendingNext st - 1 \<rparr>)
      else st)"
| "step st (ManualAdd now) =
     (case activeCard st of
        None \<Rightarrow> st
      | Some active \<Rightarrow>
          if status st = REVIEW \<and> reviewWord st = None
             \<and> \<not> list_ex (\<lambda>m. word m = word active) (mistakes st)
          then st\<lparr> mistakes := addToMistakes now active (mistakes st) \<rparr> else st)"
| "step st (Remove wordToRemove) =
     (if status st = MISTAKES \<and> list_ex (\<lambda>m. word m = wordToRemove) (mistakes st)
      then st\<lparr> mistakes := removeMistake wordToRemove (mistakes st) \<rparr> else st)"

definition run :: "app \<Rightarrow> event list \<Rightarrow> app" where
  "run st evs = foldl step st evs"

section \<open>The content provider (services/geminiService.ts)\<close>

text \<open>
  \<^verbatim>\<open>item.options.sort(() => Math.random() - 0.5)\<close> (line 62). The sorting algorithm
  belongs to the JavaScript engine; it is modelled as an insertion sort. Each call
  of the comparator draws the next random number \<open>r\<close> and returns \<open>r - 0.5\<close>; a
  negative result puts the first argument before the second.
\<close>

fun insert_random :: "rng \<Rightarrow> 'a \<Rightarrow> 'a list \<Rightarrow> 'a list \<times> rng" where
  "insert_random g x [] = ([x], g)"
| "insert_random g x (y # ys) =
     (let (r, g1) = Math_random g
      in if r - 1 / 2 < 0 then (x # y # ys, g1)
         else (let (zs, g2) = insert_random g1 x ys in (y # zs, g2)))"

fun sort_random :: "rng \<Rightarrow> 'a list \<Rightarrow> 'a list \<times> rng" where
  "sort_random g [] = ([], g)"
| "sort_random g (x # xs) =
     (let (ys, g1) = sort_random g xs in insert_random g1 x ys)"

text \<open>\<^verbatim>\<open>data.map(item => ({...item, options: item.options.sort(...)}))\<close> (lines 60-63).\<close>

fun shuffle_options :: "rng \<Rightarrow> WordCard list \<Rightarrow> WordCard list" where
  "shuffle_options g [] = []"
| "shuffle_options g (item # rest) =
     (let (sorted, g1) = sort_random g (options item)
      in item\<lparr> options := sorted \<rparr> # shuffle_options g1 rest)"

text \<open>
  \<^verbatim>\<open>fetchWordBatch\<close> (lines 27-70). \<open>response\<close> is the outcome of
  \<^verbatim>\<open>ai.models.generateContent\<close>: a rejection, or a response whose \<^verbatim>\<open>text\<close> may be
  undefined. \<open>parse_cards\<close> stands for \<^verbatim>\<open>JSON.parse(...) as WordCard[]\<close>, which throws
  on malformed text. An exception in the \<^verbatim>\<open>try\<close> block is logged and thrown again,
  so the promise is rejected with it. \<^verbatim>\<open>if (response.text)\<close> is false for undefined
  and for the empty string.
\<close>

definition fetchWordBatch ::
  "(string \<Rightarrow> error + WordCard list) \<Rightarrow> rng \<Rightarrow> (error + string option) \<Rightarrow> error + WordCard list"
where
  "fetchWordBatch parse_cards g response =
     (case response of
        Inl e \<Rightarrow> Inl e
      | Inr None \<Rightarrow> Inr []
      | Inr (Some txt) \<Rightarrow>
          if txt = [] then Inr []
          else (case parse_cards txt of
                  Inl e \<Rightarrow> Inl e
                | Inr data \<Rightarrow> Inr (shuffle_options g data)))"

section \<open>The persistent store\<close>

text \<open>
  The ledger is kept in \<^verbatim>\<open>localStorage\<close> as JSON text. \<^verbatim>\<open>JSON.stringify\<close> and
  \<^verbatim>\<open>JSON.parse\<close> are functions of the JavaScript runtime; they are modelled here
  after their definition in the language standard, for the values a ledger is made
  of: objects, arrays, strings and integers (and the three literals). A JavaScript
  value is a \<open>json\<close> tree; an object is the list of its properties in order.
\<close>

datatype json =
    JNull
  | JBool bool
  | JNumber int
  | JString string
  | JArray "json list"
  | JObject "(string \<times> json) list"

subsection \<open>JSON.stringify\<close>

text \<open>The hexadecimal digit, in lower case, of a number below 16.\<close>

definition hex_digit :: "nat \<Rightarrow> char" where
  "hex_digit n = ''0123456789abcdef'' ! n"

text \<open>
  The escape of one character inside a string literal: the quote and the backslash,
  the five short escapes, \<^verbatim>\<open>\u00XX\<close> for the other control characters, and the
  character itself otherwise.
\<close>

definition quote_char :: "char \<Rightarrow> string" where
  "quote_char c =
     (if c = CHR 0x22 then [CHR 0x5C, CHR 0x22]
      else if c = CHR 0x5C then [CHR 0x5C, CHR 0x5C]
      else if c = CHR 0x08 then [CHR 0x5C, CHR ''b'']
      else if c = CHR 0x0C then [CHR 0x5C, CHR ''f'']
      else if c = CHR 0x0A then [CHR 0x5C, CHR ''n'']
      else if c = CHR 0x0D then [CHR 0x5C, CHR ''r'']
      else if c = CHR 0x09 then [CHR 0x5C, CHR ''t'']
      else if (of_char c :: nat) < 32 then
        [CHR 0x5C, CHR ''u'', CHR ''0'', CHR ''0'',
         hex_digit (of_char c div 16), hex_digit (of_char c mod 16)]
      else [c])"

text \<open>A string literal: the escaped characters between two quotes.\<close>

definition quote :: "string \<Rightarrow> string" where
  "quote s = CHR 0x22 # concat (map quote_char s) @ [CHR 0x22]"

text \<open>
  The decimal numeral of an integer. The numbers of a ledger are a time in
  milliseconds and a streak, far below the size from which JavaScript prints a
  number with an exponent.
\<close>

definition digit_char :: "nat \<Rightarrow> char" where
  "digit_char d = char_of (48 + d)"

function show_nat :: "nat \<Rightarrow> string" where
  "show_nat n = (if n < 10 then [digit_char n] else show_nat (n div 10) @ [digit_char (n mod 10)])"
  by pat_completeness auto
termination
  by (relation "measure id") auto

definition show_int :: "int \<Rightarrow> string" where
  "show_int i = (if i < 0 then CHR ''-'' # show_nat (nat (- i)) else show_nat (nat i))"

text \<open>The texts of the elements or members, separated by commas.\<close>

fun join :: "string list \<Rightarrow> string" where
  "join [] = []"
| "join [x] = x"
| "join (x # y # ys) = x @ CHR '','' # join (y # ys)"

text \<open>\<^verbatim>\<open>JSON.stringify(value)\<close>, called without indentation: no white space is written.\<close>

fun JSON_stringify :: "json \<Rightarrow> string" where
  "JSON_stringify JNull = ''null''"
| "JSON_stringify (JBool b) = (if b then ''true'' else ''false'')"
| "JSON_stringify (JNumber i) = show_int i"
| "JSON_stringify (JString s) = quote s"
| "JSON_stringify (JArray vs) = CHR ''['' # join (map JSON_stringify vs) @ '']''"
| "JSON_stringify (JObject kvs) =
     CHR ''{'' # join (map (\<lambda>kv. quote (fst kv) @ CHR '':'' # JSON_stringify (snd kv)) kvs) @ ''}''"

subsection \<open>JSON.parse\<close>

text \<open>White space between tokens (space, tab, line feed, carriage return) is skipped.\<close>

definition is_space :: "char \<Rightarrow> bool" where
  "is_space c \<longleftrightarrow> c = CHR 0x20 \<or> c = CHR 0x09 \<or> c = CHR 0x0A \<or> c = CHR 0x0D"

definition skip_ws :: "string \<Rightarrow> string" where
  "skip_ws cs = dropWhile is_space cs"

definition is_digit :: "char \<Rightarrow> bool" where
  "is_digit c \<longleftrightarrow> 48 \<le> (of_char c :: nat) \<and> (of_char c :: nat) \<le> 57"

definition read_nat :: "string \<Rightarrow> nat" where
  "read_nat ds = foldl (\<lambda>a c. 10 * a + (of_char c - 48)) 0 ds"

text \<open>
  An integer literal: digits without a leading zero. A fraction or an exponent
  does not occur in a ledger and is not accepted by this model.
\<close>

definition parse_digits :: "string \<Rightarrow> (nat \<times> string) option" where
  "parse_digits cs =
     (let ds = takeWhile is_digit cs; rest = dropWhile is_digit cs
      in if ds = [] \<or> (length ds > 1 \<and> hd ds = CHR ''0'') then None
         else if rest \<noteq> [] \<and> hd rest \<in> {CHR ''.'', CHR ''e'', CHR ''E''} then None
         else Some (read_nat ds, rest))"

definition parse_number :: "string \<Rightarrow> (json \<times> string) option" where
  "parse_number cs =
     (case cs of
        [] \<Rightarrow> None
      | c # rest \<Rightarrow>
          if c = CHR ''-''
          then map_option (\<lambda>(n, r). (JNumber (- int n), r)) (parse_digits rest)
          else map_option (\<lambda>(n, r). (JNumber (int n), r)) (parse_digits cs))"

text \<open>The value of a hexadecimal digit, in either case.\<close>

definition unhex :: "char \<Rightarrow> nat option" where
  "unhex c =
     (let n = (of_char c :: nat)
      in if 48 \<le> n \<and> n \<le> 57 then Some (n - 48)
         else if 97 \<le> n \<and> n \<le> 102 then Some (n - 87)
         else if 65 \<le> n \<and> n \<le> 70 then Some (n - 55)
         else None)"

text \<open>
  The characters of a string literal after the opening quote, up to the closing
  one. Strings are byte strings here, so a \<^verbatim>\<open>\u\<close> escape above \<^verbatim>\<open>00ff\<close> is not
  accepted; \<^verbatim>\<open>JSON.stringify\<close> writes such escapes for control characters only.
\<close>

fun parse_chars :: "string \<Rightarrow> (string \<times> string) option" where
  "parse_chars [] = None"
| "parse_chars (c # cs) =
     (if c = CHR 0x22 then Some ([], cs)
      else if (of_char c :: nat) < 32 then None
      else if c = CHR 0x5C then
        (case cs of
           [] \<Rightarrow> None
         | e # cs1 \<Rightarrow>
             if e = CHR ''u'' then
               (case cs1 of
                  h1 # h2 # h3 # h4 # cs2 \<Rightarrow>
                    (case (unhex h1, unhex h2, unhex h3, unhex h4) of
                       (Some a, Some b, Some x, Some y) \<Rightarrow>
                         if a = 0 \<and> b = 0
                         then map_option (\<lambda>(s, r). (char_of (16 * x + y) # s, r)) (parse_chars cs2)
                         else None
                     | _ \<Rightarrow> None)
                | _ \<Rightarrow> None)
             else
               (case (if e = CHR 0x22 then Some (CHR 0x22)
                      else if e = CHR 0x5C then Some (CHR 0x5C)
                      else if e = CHR ''/'' then Some (CHR ''/'')
                      else if e = CHR ''b'' then Some (CHR 0x08)
                      else if e = CHR ''f'' then Some (CHR 0x0C)
                      else if e = CHR ''n'' then Some (CHR 0x0A)
                      else if e = CHR ''r'' then Some (CHR 0x0D)
                      else if e = CHR ''t'' then Some (CHR 0x09)
                      else None) of
                  None \<Rightarrow> None
                | Some d \<Rightarrow> map_option (\<lambda>(s, r). (d # s, r)) (parse_chars cs1)))
      else map_option (\<lambda>(s, r). (c # s, r)) (parse_chars cs))"

text \<open>One of the literals \<^verbatim>\<open>null\<close>, \<^verbatim>\<open>true\<close> and \<^verbatim>\<open>false\<close>.\<close>

definition parse_literal :: "string \<Rightarrow> json \<Rightarrow> string \<Rightarrow> (json \<times> string) option" where
  "parse_literal lit v cs =
     (if take (length lit) cs = lit then Some (v, drop (length lit) cs) else None)"

text \<open>
  The recursive descent over values, array elements and object members. The first
  argument bounds the depth of the recursion; \<open>JSON_parse\<close> starts it with the length
  of the text, which is always enough.
\<close>

fun parse_value :: "nat \<Rightarrow> string \<Rightarrow> (json \<times> string) option"
  and parse_elements :: "nat \<Rightarrow> string \<Rightarrow> (json list \<times> string) option"
  and parse_members :: "nat \<Rightarrow> string \<Rightarrow> ((string \<times> json) list \<times> string) option"
where
  "parse_value 0 cs = None"
| "parse_value (Suc n) cs =
     (case skip_ws cs of
        [] \<Rightarrow> None
      | c # rest \<Rightarrow>
          if c = CHR ''['' then
            (case skip_ws rest of
               [] \<Rightarrow> None
             | d # r \<Rightarrow>
                 if d = CHR '']'' then Some (JArray [], r)
                 else map_option (\<lambda>(vs, r1). (JArray vs, r1)) (parse_elements n rest))
          else if c = CHR ''{'' then
            (case skip_ws rest of
               [] \<Rightarrow> None
             | d # r \<Rightarrow>
                 if d = CHR ''}'' then Some (JObject [], r)
                 else map_option (\<lambda>(kvs, r1). (JObject kvs, r1)) (parse_members n rest))
          else if c = CHR 0x22 then map_option (\<lambda>(s, r). (JString s, r)) (parse_chars rest)
          else if c = CHR ''n'' then parse_literal ''null'' JNull (c # rest)
          else if c = CHR ''t'' then parse_literal ''true'' (JBool True) (c # rest)
          else if c = CHR ''f'' then parse_literal ''false'' (JBool False) (c # rest)
          else parse_number (c # rest))"
| "parse_elements 0 cs = None"
| "parse_elements (Suc n) cs =
     (case parse_value n cs of
        None \<Rightarrow> None
      | Some (v, r) \<Rightarrow>
          (case skip_ws r of
             [] \<Rightarrow> None
           | c # r1 \<Rightarrow>
               if c = CHR '','' then map_option (\<lambda>(vs, r2). (v # vs, r2)) (parse_elements n r1)
               else if c = CHR '']'' then Some ([v], r1)
               else None))"
| "parse_members 0 cs = None"
| "parse_members (Suc n) cs =
     (case skip_ws cs of
        [] \<Rightarrow> None
      | q # r0 \<Rightarrow>
          if q \<noteq> CHR 0x22 then None
          else
            (case parse_chars r0 of
               None \<Rightarrow> None
             | Some (k, r1) \<Rightarrow>
                 (case skip_ws r1 of
                    [] \<Rightarrow> None
                  | c # r2 \<Rightarrow>
                      if c \<noteq> CHR '':'' then None
                      else
                        (case parse_value n r2 of
                           None \<Rightarrow> None
                         | Some (v, r3) \<Rightarrow>
                             (case skip_ws r3 of
                                [] \<Rightarrow> None
                              | d # r4 \<Rightarrow>
                                  if d = CHR '','' then
                                    map_option (\<lambda>(kvs, r5). ((k, v) # kvs, r5)) (parse_members n r4)
                                  else if d = CHR ''}'' then Some ([(k, v)], r4)
                                  else None)))))"

text \<open>
  \<^verbatim>\<open>JSON.parse(text)\<close>: the value of the whole text, or a \<^verbatim>\<open>SyntaxError\<close> when the
  text is not one JSON value.
\<close>

datatype js_error = SyntaxError | TypeError

definition JSON_parse :: "string \<Rightarrow> js_error + json" where
  "JSON_parse s =
     (case parse_value (length s) s of
        None \<Rightarrow> Inl SyntaxError
      | Some (v, r) \<Rightarrow> if skip_ws r = [] then Inr v else Inl SyntaxError)"

subsection \<open>The ledger as a JavaScript value\<close>

text \<open>
  A record in memory is a JavaScript object with the seven properties of the card
  followed by \<^verbatim>\<open>timestamp\<close> and \<^verbatim>\<open>consecutiveCorrect\<close> (the order in which line 160
  builds it); the ledger is the array of these objects.
\<close>

definition record_to_json :: "MistakeRecord \<Rightarrow> json" where
  "record_to_json m =
     JObject [(''word'', JString (word m)),
              (''phonetic'', JString (phonetic m)),
              (''meaning'', JString (meaning m)),
              (''options'', JArray (map JString (options m))),
              (''mnemonic'', JString (mnemonic m)),
              (''sentence'', JString (sentence m)),
              (''sentenceTranslation'', JString (sentenceTranslation m)),
              (''timestamp'', JNumber (timestamp m)),
              (''consecutiveCorrect'', JNumber (consecutiveCorrect m))]"

definition ledger_to_json :: "MistakeRecord list \<Rightarrow> json" where
  "ledger_to_json ms = JArray (map record_to_json ms)"

text \<open>
  Reading a property of an object; when a name occurs twice in a parsed text, the
  later value is the one the object has.
\<close>

definition get_property :: "(string \<times> json) list \<Rightarrow> string \<Rightarrow> json option" where
  "get_property kvs k = map_of (rev kvs) k"

definition get_string :: "(string \<times> json) list \<Rightarrow> string \<Rightarrow> string option" where
  "get_string kvs k = (case get_property kvs k of Some (JString s) \<Rightarrow> Some s | _ \<Rightarrow> None)"

definition get_int :: "(string \<times> json) list \<Rightarrow> string \<Rightarrow> int option" where
  "get_int kvs k = (case get_property kvs k of Some (JNumber i) \<Rightarrow> Some i | _ \<Rightarrow> None)"

definition get_strings :: "(string \<times> json) list \<Rightarrow> string \<Rightarrow> string list option" where
  "get_strings kvs k =
     (case get_property kvs k of
        Some (JArray vs) \<Rightarrow> those (map (\<lambda>v. case v of JString s \<Rightarrow> Some s | _ \<Rightarrow> None) vs)
      | _ \<Rightarrow> None)"

text \<open>
  The record that a JavaScript value is, when it is an object with the nine
  properties at their types. The program uses the parsed value as it comes; a
  value of another shape is not a ledger, and the model reports it as a type error.
\<close>

definition json_to_record :: "json \<Rightarrow> MistakeRecord option" where
  "json_to_record v =
     (case v of
        JObject kvs \<Rightarrow>
          Option.bind (get_string kvs ''word'') (\<lambda>w.
          Option.bind (get_string kvs ''phonetic'') (\<lambda>p.
          Option.bind (get_string kvs ''meaning'') (\<lambda>mg.
          Option.bind (get_strings kvs ''options'') (\<lambda>os.
          Option.bind (get_string kvs ''mnemonic'') (\<lambda>mn.
          Option.bind (get_string kvs ''sentence'') (\<lambda>se.
          Option.bind (get_string kvs ''sentenceTranslation'') (\<lambda>tr.
          Option.bind (get_int kvs ''timestamp'') (\<lambda>ts.
          Option.bind (get_int kvs ''consecutiveCorrect'') (\<lambda>cc.
            Some \<lparr> word = w, phonetic = p, meaning = mg, options = os, mnemonic = mn,
                   sentence = se, sentenceTranslation = tr,
                   timestamp = ts, consecutiveCorrect = cc \<rparr>)))))))))
      | _ \<Rightarrow> None)"

definition json_to_ledger :: "json \<Rightarrow> MistakeRecord list option" where
  "json_to_ledger v = (case v of JArray vs \<Rightarrow> those (map json_to_record vs) | _ \<Rightarrow> None)"

subsection \<open>The two effects of App\<close>

type_synonym storage = "string \<rightharpoonup> string"

text \<open>The save effect (lines 40-42), run after every change of \<^verbatim>\<open>mistakes\<close>.\<close>

definition saveEffect :: "app \<Rightarrow> storage \<Rightarrow> storage" where
  "saveEffect st store =
     store(''kaoyan_mistakes'' \<mapsto> JSON_stringify (ledger_to_json (mistakes st)))"

text \<open>
  The mount effect (lines 29-37): \<^verbatim>\<open>getItem\<close> gives \<^verbatim>\<open>null\<close> for an absent key, and
  \<^verbatim>\<open>if (savedMistakes)\<close> is false for \<^verbatim>\<open>null\<close> and for the empty string. \<open>prefetch\<close>
  is the outcome of the \<^verbatim>\<open>fetchWordBatch()\<close> call at line 36.
\<close>

definition loadEffect :: "storage \<Rightarrow> (error + WordCard list) \<Rightarrow> app \<Rightarrow> js_error + app" where
  "loadEffect store prefetch st =
     (case store ''kaoyan_mistakes'' of
        None \<Rightarrow> Inr (st\<lparr> initFetchPromise := Some prefetch \<rparr>)
      | Some savedMistakes \<Rightarrow>
          if savedMistakes = [] then Inr (st\<lparr> initFetchPromise := Some prefetch \<rparr>)
          else
            (case JSON_parse savedMistakes of
               Inl e \<Rightarrow> Inl e
             | Inr v \<Rightarrow>
                 (case json_to_ledger v of
                    None \<Rightarrow> Inl TypeError
                  | Some ms \<Rightarrow> Inr (st\<lparr> mistakes := ms, initFetchPromise := Some prefetch \<rparr>))))"

subsection \<open>Notions used in the proofs about the parser\<close>

text \<open>What may follow a value in a JSON text: nothing, a comma or a closing bracket.\<close>

definition delimited :: "string \<Rightarrow> bool" where
  "delimited rest \<longleftrightarrow>
     (case rest of [] \<Rightarrow> True | c # _ \<Rightarrow> c = CHR '','' \<or> c = CHR '']'' \<or> c = CHR ''}'')"

text \<open>A character that a printed value can start with.\<close>

definition starts_value :: "char \<Rightarrow> bool" where
  "starts_value c \<longleftrightarrow> \<not> is_space c \<and> c \<noteq> CHR '']'' \<and> c \<noteq> CHR ''}''"

text \<open>The text of one property of an object.\<close>

definition member_string :: "string \<times> json \<Rightarrow> string" where
  "member_string kv = quote (fst kv) @ CHR '':'' # JSON_stringify (snd kv)"

section \<open>Example data\<close>

text \<open>Ledger records, cards and states, used where a property is evaluated on a concrete input.\<close>

definition rec1 :: MistakeRecord where
  "rec1 = \<lparr> word = ''abate'', phonetic = ''x'', meaning = ''m'',
            options = [''m'', ''a'', ''b'', ''c''], mnemonic = ''mn'', sentence = ''s'',
            sentenceTranslation = ''t'', timestamp = 5, consecutiveCorrect = 2 \<rparr>"

definition card1 :: WordCard where
  "card1 = \<lparr> word = ''candid'', phonetic = ''y'', meaning = ''p'',
             options = [''q'', ''p'', ''r'', ''s''], mnemonic = ''mn'', sentence = ''s'',
             sentenceTranslation = ''t'' \<rparr>"

definition card2 :: WordCard where
  "card2 = \<lparr> word = ''deter'', phonetic = ''z'', meaning = ''u'',
             options = [''u'', ''v'', ''w'', ''x''], mnemonic = ''mn'', sentence = ''s'',
             sentenceTranslation = ''t'' \<rparr>"

definition rec2 :: MistakeRecord where
  "rec2 = \<lparr> word = ''brisk'', phonetic = ''w'', meaning = ''k'',
            options = [''j'', ''k'', ''l'', ''n''], mnemonic = ''mn'', sentence = ''s'',
            sentenceTranslation = ''t'', timestamp = 3, consecutiveCorrect = 3 \<rparr>"

definition session1 :: app where
  "session1 = initial\<lparr> status := REVIEW, words := [card1, card2], mistakes := [rec2, rec1],
                       wordsSinceReview := 9 \<rparr>"

definition review1 :: app where
  "review1 = initial\<lparr> status := QUIZ, words := [card1, card2], mistakes := [rec2, rec1],
                      reviewWord := Some rec1 \<rparr>"

definition last1 :: app where
  "last1 = initial\<lparr> status := REVIEW, words := [card1, card2], currentIndex := 1 \<rparr>"

text \<open>
  The application after its mount effect has read the ledger \<open>[rec1]\<close> from the store
  and started a prefetch that will bring the batch \<open>[card1]\<close>.
\<close>

definition mounted :: app where
  "mounted = initial\<lparr> mistakes := [rec1], initFetchPromise := Some (Inr [card1]) \<rparr>"

text \<open>One regular word answered right at the first attempt, and the advance after it.\<close>

definition answer_and_continue :: "event list" where
  "answer_and_continue = [ChooseOption 1 ''p'', RewardTimeout, Continue (\<lambda>_. 0)]"

text \<open>
  The first session: the prefetched one-card batch is answered, and the advance
  from its last card starts a fetch, which stays pending. The user goes home.
\<close>

definition first_session :: "event list" where
  "first_session = [StartTraining, SessionSettled 0 (Inr [])] @ answer_and_continue @ [GoHome]"

text \<open>
  The second session on the card at index \<open>i\<close> of a batch of ten cards, \<open>i\<close> regular
  words after its start, with the fetch of the first session pending.
\<close>

definition at_card :: "nat \<Rightarrow> app" where
  "at_card i = initial\<lparr> status := QUIZ, mistakes := [rec1], words := replicate 10 card1,
                         currentIndex := i, wordsSinceReview := i, pendingNext := 1 \<rparr>"

text \<open>
  A run in which the pending fetch settles late. A second session brings a batch of
  ten cards; the tenth advance injects the review of \<open>rec1\<close>, which is answered
  right and shows its result. Then the fetch of the first session settles with
  \<open>[card2]\<close>, and its handler sets the status to \<^verbatim>\<open>QUIZ\<close>.
\<close>

definition late_batch_after_review :: "event list" where
  "late_batch_after_review =
     first_session
     @ [StartTraining, SessionSettled 0 (Inr (replicate 10 card1))]
     @ concat (replicate 10 answer_and_continue)
     @ [ChooseOption 2 ''m'', RewardTimeout, BatchSettled (Inr [card2])]"

text \<open>
  A run in which the pending fetch settles while a card has a wrong candidate. In
  the second session the first option chosen on \<open>card1\<close> is wrong; then the fetch of
  the first session settles with \<open>[card2]\<close>, and its handler sets the batch, the
  index and the status.
\<close>

definition late_batch_after_wrong :: "event list" where
  "late_batch_after_wrong =
     first_session
     @ [StartTraining, SessionSettled 0 (Inr [card1, card2]),
        ChooseOption 2 ''q'', BatchSettled (Inr [card2])]"

section \<open>Rounding\<close>

lemma round_half_even_upper: "of_int (round_half_even y) \<le> y + 1 / 2"
  unfolding round_half_even_def Let_def by (auto; linarith)

lemma round_half_even_lower: "y - 1 / 2 \<le> of_int (round_half_even y)"
  unfolding round_half_even_def Let_def by (auto; linarith)

lemma round_half_even_ge:
  assumes "of_int m \<le> y"
  shows "m \<le> round_half_even y"
proof -
  from round_half_even_lower [of y] assms
  have "(of_int m :: real) - 1 / 2 \<le> of_int (round_half_even y)" by linarith
  then have "(of_int m :: real) < of_int (round_half_even y) + 1" by linarith
  then have "(of_int m :: real) < of_int (round_half_even y + 1)" by simp
  then have "m < round_half_even y + 1" by (simp only: of_int_less_iff)
  then show ?thesis by simp
qed

lemma round_half_even_le:
  assumes "y \<le> of_int m"
  shows "round_half_even y \<le> m"
proof -
  from round_half_even_upper [of y] assms
  have "(of_int (round_half_even y) :: real) < of_int m + 1" by linarith
  then have "(of_int (round_half_even y) :: real) < of_int (m + 1)" by simp
  then have "round_half_even y < m + 1" by (simp only: of_int_less_iff)
  then show ?thesis by simp
qed

lemma round_half_even_less:
  assumes "y < of_int m - 1 / 2"
  shows "round_half_even y < m"
proof -
  from round_half_even_upper [of y] assms
  have "(of_int (round_half_even y) :: real) < of_int m" by linarith
  then show ?thesis by (simp only: of_int_less_iff)
qed

lemma round_half_even_int [simp]: "round_half_even (of_int m) = m"
  by (simp add: round_half_even_def)

section \<open>The binary exponent\<close>

text \<open>From 1 on, halving finds the power of two at or below the number.\<close>

lemma binade_up:
  "1 \<le> x \<Longrightarrow>
     0 \<le> binade k x \<and> 2 ^ nat (binade k x) \<le> x
   \<and> (x < 2 ^ k \<longrightarrow> x < 2 * 2 ^ nat (binade k x))"
proof (induction k arbitrary: x)
  case 0
  then show ?case by simp
next
  case (Suc k)
  show ?case
  proof (cases "2 \<le> x")
    case True
    then have h: "1 \<le> x / 2" by simp
    note IH = Suc.IH [OF h]
    from IH have e: "0 \<le> binade k (x / 2)" by simp
    then have n: "nat (binade k (x / 2) + 1) = Suc (nat (binade k (x / 2)))" by simp
    from IH have "2 ^ nat (binade k (x / 2)) \<le> x / 2" by simp
    then have lo: "2 ^ Suc (nat (binade k (x / 2))) \<le> x" by simp
    have hi: "x < 2 * 2 ^ Suc (nat (binade k (x / 2)))" if "x < 2 ^ Suc k"
    proof -
      from that have "x / 2 < 2 ^ k" by simp
      with IH have "x / 2 < 2 * 2 ^ nat (binade k (x / 2))" by simp
      then show ?thesis by simp
    qed
    from True e lo hi show ?thesis by (simp add: n del: power_Suc)
  next
    case False
    with Suc.prems show ?thesis by simp
  qed
qed

text \<open>
  Below 1, doubling finds the power of two at or below the number, unless the steps
  run out, and then the result is minus their number.
\<close>

lemma binade_down:
  "0 < x \<Longrightarrow> x < 1 \<Longrightarrow>
     binade k x \<le> 0 \<and> - int k \<le> binade k x
   \<and> (- int k < binade k x \<longrightarrow> 1 / 2 ^ nat (- binade k x) \<le> x)"
proof (induction k arbitrary: x)
  case 0
  then show ?case by simp
next
  case (Suc k)
  show ?case
  proof (cases "x * 2 < 1")
    case True
    with Suc.prems have h: "0 < x * 2" "x * 2 < 1" by simp_all
    note IH = Suc.IH [OF h]
    from Suc.prems have b: "binade (Suc k) x = binade k (x * 2) - 1" by simp
    from IH have le: "binade k (x * 2) \<le> 0" by simp
    then have n: "nat (- (binade k (x * 2) - 1)) = Suc (nat (- binade k (x * 2)))" by simp
    have "1 / 2 ^ Suc (nat (- binade k (x * 2))) \<le> x" if "- int k < binade k (x * 2)"
    proof -
      from that IH have "1 / 2 ^ nat (- binade k (x * 2)) \<le> x * 2" by simp
      then show ?thesis by (simp add: field_simps)
    qed
    with IH le show ?thesis unfolding b n by simp
  next
    case False
    with Suc.prems have x: "1 / 2 \<le> x" by simp
    with Suc.prems have b: "binade (Suc k) x = binade k (x * 2) - 1"
      and h: "1 \<le> x * 2" "\<not> 2 \<le> x * 2" by simp_all
    have "binade k (x * 2) = 0 \<or> k = 0"
      using h by (cases k) simp_all
    then have z: "binade k (x * 2) = 0" by auto
    from x show ?thesis unfolding b z by simp
  qed
qed

lemma exponent_ge: "- 1022 \<le> exponent x"
  by (simp add: exponent_def)

lemma exponent_le:
  assumes "0 < x" "x < 2 ^ 53"
  shows "exponent x \<le> 52"
proof (cases "1 \<le> x")
  case True
  note b = binade_up [OF True, of 1100]
  have "(2::real) ^ 53 \<le> 2 ^ 1100" by (intro power_increasing) simp_all
  with assms(2) have "x < 2 ^ 1100" by linarith
  with b have hi: "x < 2 * 2 ^ nat (binade 1100 x)" and lo: "2 ^ nat (binade 1100 x) \<le> x"
    by simp_all
  have "nat (binade 1100 x) < 53"
  proof (rule ccontr)
    assume "\<not> nat (binade 1100 x) < 53"
    then have "(2::real) ^ 53 \<le> 2 ^ nat (binade 1100 x)"
      by (intro power_increasing) simp_all
    with lo assms(2) show False by linarith
  qed
  then show ?thesis by (simp add: exponent_def)
next
  case False
  with binade_down [OF assms(1), of 1100] show ?thesis by (simp add: exponent_def)
qed

lemma quantum_pos: "0 < quantum x"
  by (simp add: quantum_def)

text \<open>Below \<open>2 ^ 53\<close> the reciprocal of the quantum is a natural number.\<close>

lemma inverse_quantum:
  assumes "0 < x" "x < 2 ^ 53"
  shows "1 / quantum x = 2 ^ nat (52 - exponent x)"
  using exponent_le [OF assms] by (cases "exponent x = 52") (simp_all add: quantum_def)

text \<open>The power of two of the exponent is at most the number, or the least normal double.\<close>

lemma quantum_bound:
  assumes "0 < x" "x < 2 ^ 53"
  shows "quantum x * 2 ^ 52 \<le> max x (1 / 2 ^ 1022)"
proof -
  let ?e = "exponent x"
  from exponent_le [OF assms] exponent_ge [of x] have e: "- 1022 \<le> ?e" "?e \<le> 52" by simp_all
  from inverse_quantum [OF assms] quantum_pos [of x]
  have q: "quantum x = 1 / 2 ^ nat (52 - ?e)" by (simp add: field_simps)
  show ?thesis
  proof (cases "1 \<le> x")
    case True
    from binade_up [OF True, of 1100] have b: "0 \<le> binade 1100 x" "2 ^ nat (binade 1100 x) \<le> x"
      by simp_all
    then have eb: "?e = binade 1100 x" by (simp add: exponent_def)
    with b e have "52 = nat (52 - ?e) + nat ?e" by simp
    then have "(2::real) ^ 52 = 2 ^ nat (52 - ?e) * 2 ^ nat ?e"
      by (simp only: power_add [symmetric])
    then have "quantum x * 2 ^ 52 = (1 / 2 ^ nat (52 - ?e)) * (2 ^ nat (52 - ?e) * 2 ^ nat ?e)"
      by (simp only: q)
    then have "quantum x * 2 ^ 52 = 2 ^ nat ?e" by simp
    with b eb show ?thesis by simp
  next
    case False
    with assms(1) have x: "0 < x" "x < 1" by simp_all
    note b = binade_down [OF x, of 1100]
    from b have en: "?e \<le> 0" by (simp add: exponent_def)
    with e have "nat (52 - ?e) = 52 + nat (- ?e)" by simp
    then have "(2::real) ^ nat (52 - ?e) = 2 ^ 52 * 2 ^ nat (- ?e)"
      by (simp only: power_add)
    then have "quantum x * 2 ^ 52 = (1 / (2 ^ 52 * 2 ^ nat (- ?e))) * 2 ^ 52"
      by (simp only: q)
    then have qe: "quantum x * 2 ^ 52 = 1 / 2 ^ nat (- ?e)" by simp
    show ?thesis
    proof (cases "binade 1100 x \<le> - 1022")
      case True
      then have "?e = - 1022" by (simp add: exponent_def)
      then have "nat (- ?e) = 1022" by simp
      with qe have "quantum x * 2 ^ 52 = 1 / 2 ^ 1022" by (simp only:)
      then show ?thesis using max.cobounded2 [of "1 / 2 ^ 1022" x] by (simp only:)
    next
      case False
      then have eb: "?e = binade 1100 x" by (simp add: exponent_def)
      from False b have "1 / 2 ^ nat (- binade 1100 x) \<le> x" by simp
      then have "quantum x * 2 ^ 52 \<le> x" by (simp only: qe eb)
      then show ?thesis by (simp only: max.coboundedI1)
    qed
  qed
qed

lemma binade_below_one: "1 / 2 \<le> r \<Longrightarrow> r < 1 \<Longrightarrow> binade (Suc (Suc k)) r = - 1"
  by simp

lemma exponent_below_one:
  assumes "1 / 2 \<le> r" "r < 1"
  shows "exponent r = - 1"
proof -
  have "binade (Suc (Suc 1098)) r = - 1" using assms by (rule binade_below_one)
  moreover have "Suc (Suc 1098) = 1100" by simp
  ultimately have "binade 1100 r = - 1" by (simp only:)
  then show ?thesis by (simp add: exponent_def)
qed

lemma round_double_pos:
  "0 < x \<Longrightarrow> round_double x = quantum x * of_int (round_half_even (x / quantum x))"
  by (simp add: round_double_def)

lemma round_double_zero [simp]: "round_double 0 = 0"
  by (simp add: round_double_def)

text \<open>An integer is a multiple of the quantum of every positive number below \<open>2 ^ 53\<close>.\<close>

lemma int_over_quantum:
  assumes "0 < x" "x < 2 ^ 53"
  shows "of_int j / quantum x = of_int (j * 2 ^ nat (52 - exponent x))"
proof -
  have "of_int j / quantum x = of_int j * (1 / quantum x)" by simp
  also have "\<dots> = of_int j * 2 ^ nat (52 - exponent x)"
    by (simp only: inverse_quantum [OF assms])
  finally show ?thesis by simp
qed

lemma quantum_times_int:
  assumes "0 < x" "x < 2 ^ 53"
  shows "quantum x * of_int (j * 2 ^ nat (52 - exponent x)) = of_int j"
proof -
  from inverse_quantum [OF assms] quantum_pos [of x]
  have "quantum x * 2 ^ nat (52 - exponent x) = 1" by (simp add: field_simps)
  then have "of_int j * (quantum x * 2 ^ nat (52 - exponent x)) = of_int j" by simp
  then show ?thesis by (simp add: mult.commute mult.left_commute)
qed

lemma round_double_ge_int:
  assumes "0 < x" "x < 2 ^ 53" "of_int j \<le> x"
  shows "of_int j \<le> round_double x"
proof -
  let ?q = "quantum x" and ?m = "j * 2 ^ nat (52 - exponent x)"
  note q = quantum_pos [of x]
  from assms(3) q have "of_int j / ?q \<le> x / ?q" by (simp add: divide_right_mono)
  then have "of_int ?m \<le> x / ?q" by (simp only: int_over_quantum [OF assms(1,2)])
  then have "?m \<le> round_half_even (x / ?q)" by (rule round_half_even_ge)
  then have "(of_int ?m :: real) \<le> of_int (round_half_even (x / ?q))" by (simp only: of_int_le_iff)
  with q have "?q * of_int ?m \<le> ?q * of_int (round_half_even (x / ?q))"
    by (simp only: mult_le_cancel_left_pos)
  moreover have "?q * of_int ?m = of_int j"
    by (rule quantum_times_int [OF assms(1,2)])
  ultimately show ?thesis by (simp only: round_double_pos [OF assms(1)])
qed

lemma round_double_le_int:
  assumes "0 < x" "x < 2 ^ 53" "x \<le> of_int j"
  shows "round_double x \<le> of_int j"
proof -
  let ?q = "quantum x" and ?m = "j * 2 ^ nat (52 - exponent x)"
  note q = quantum_pos [of x]
  from assms(3) q have "x / ?q \<le> of_int j / ?q" by (simp add: divide_right_mono)
  then have "x / ?q \<le> of_int ?m" by (simp only: int_over_quantum [OF assms(1,2)])
  then have "round_half_even (x / ?q) \<le> ?m" by (rule round_half_even_le)
  then have "(of_int (round_half_even (x / ?q)) :: real) \<le> of_int ?m" by (simp only: of_int_le_iff)
  with q have "?q * of_int (round_half_even (x / ?q)) \<le> ?q * of_int ?m"
    by (simp only: mult_le_cancel_left_pos)
  moreover have "?q * of_int ?m = of_int j"
    by (rule quantum_times_int [OF assms(1,2)])
  ultimately show ?thesis by (simp only: round_double_pos [OF assms(1)])
qed

text \<open>More than half a quantum below an integer, the rounded number stays below it.\<close>

lemma round_double_less_int:
  assumes "0 < x" "x < 2 ^ 53" "x + d \<le> of_int j" "quantum x / 2 < d"
  shows "round_double x < of_int j"
proof -
  let ?q = "quantum x" and ?m = "j * 2 ^ nat (52 - exponent x)"
  note q = quantum_pos [of x]
  from assms(3) q have "(x + d) / ?q \<le> of_int j / ?q" by (simp add: divide_right_mono)
  then have "x / ?q + d / ?q \<le> of_int ?m"
    by (simp only: int_over_quantum [OF assms(1,2)] add_divide_distrib)
  moreover from assms(4) q have "1 / 2 < d / ?q" by (simp add: field_simps)
  ultimately have "x / ?q < of_int ?m - 1 / 2" by linarith
  then have "round_half_even (x / ?q) < ?m" by (rule round_half_even_less)
  then have "(of_int (round_half_even (x / ?q)) :: real) < of_int ?m" by (simp only: of_int_less_iff)
  with q have "?q * of_int (round_half_even (x / ?q)) < ?q * of_int ?m"
    by (simp only: mult_less_cancel_left_pos)
  moreover have "?q * of_int ?m = of_int j"
    by (rule quantum_times_int [OF assms(1,2)])
  ultimately show ?thesis by (simp only: round_double_pos [OF assms(1)])
qed

lemma round_double_near:
  assumes "0 < x"
  shows "round_double x - quantum x / 2 \<le> x"
proof -
  let ?q = "quantum x"
  note q = quantum_pos [of x]
  from round_half_even_upper [of "x / ?q"]
  have "?q * of_int (round_half_even (x / ?q)) \<le> ?q * (x / ?q + 1 / 2)"
    using q by (simp only: mult_le_cancel_left_pos)
  also have "\<dots> = x + ?q / 2" using q by (simp add: field_simps)
  finally show ?thesis by (simp add: round_double_pos [OF assms])
qed

text \<open>
  Half the quantum of a positive number below a positive natural number \<open>n\<close> is
  less than \<open>n / 2 ^ 53\<close>.
\<close>

lemma half_quantum_less:
  assumes "0 < x" "x < real n" "x < 2 ^ 53"
  shows "quantum x / 2 < real n / 2 ^ 53"
proof -
  from assms have n: "1 \<le> real n" by (cases n) auto
  define c :: real where "c = 1 / 2 ^ 1022"
  have "c \<le> 1 / 2 ^ 1" unfolding c_def
    by (intro divide_left_mono power_increasing) simp_all
  then have "c < 1" by simp
  with n assms(2) have "max x c < real n" by simp
  moreover have "quantum x * 2 ^ 52 \<le> max x c"
    unfolding c_def by (rule quantum_bound [OF assms(1,3)])
  ultimately have "quantum x * 2 ^ 52 < real n" by linarith
  then have "(quantum x * 2 ^ 52) / 2 ^ 53 < real n / 2 ^ 53"
    by (intro divide_strict_right_mono) simp_all
  moreover have "(quantum x * 2 ^ 52) / 2 ^ 53 = quantum x / 2"
  proof -
    have "(2::real) ^ 53 = 2 ^ 52 * 2" by simp
    then show ?thesis by (simp only:) simp
  qed
  ultimately show ?thesis by (simp only:)
qed

section \<open>Random integers\<close>

text \<open>A double in \<open>[0, 1)\<close> is at most \<open>1 - 2\<^sup>-\<^sup>5\<^sup>3\<close>.\<close>

lemma unit_interval_upper:
  assumes "unit_interval r"
  shows "r \<le> 1 - 1 / 2 ^ 53"
proof (cases "r \<le> 1 / 2")
  case True
  have "(1::real) / 2 ^ 53 \<le> 1 / 2 ^ 1"
    by (intro divide_left_mono power_increasing) simp_all
  with True show ?thesis by simp
next
  case False
  with assms have r: "0 < r" "r < 1" "1 / 2 < r" and fixed: "round_double r = r"
    by (simp_all add: unit_interval_def is_double_def)
  from r have e: "exponent r = - 1" by (intro exponent_below_one) simp_all
  let ?m = "round_half_even (r / quantum r)"
  from r have r53: "r < 2 ^ 53" by simp
  have inv: "1 / quantum r = 2 ^ 53"
    using inverse_quantum [OF r(1) r53] by (simp add: e)
  from fixed have "quantum r * of_int ?m = r" by (simp add: round_double_pos [OF r(1)])
  then have "of_int ?m = r / quantum r"
    using quantum_pos [of r] by (simp add: field_simps)
  also have "\<dots> = r * (1 / quantum r)" by simp
  also have "\<dots> = r * 2 ^ 53" by (simp only: inv)
  finally have m: "of_int ?m = r * 2 ^ 53" .
  with r(2) have "(of_int ?m :: real) < of_int (2 ^ 53)" by simp
  then have "?m < 2 ^ 53" by (simp only: of_int_less_iff)
  then have "?m \<le> 2 ^ 53 - 1" by simp
  then have "(of_int ?m :: real) \<le> of_int (2 ^ 53 - 1)" by (simp only: of_int_le_iff)
  with m have "r * 2 ^ 53 \<le> 2 ^ 53 - 1" by simp
  then show ?thesis by (simp add: field_simps)
qed

lemma nat_less_2_53: "n < 2 ^ 53 \<Longrightarrow> real n < 2 ^ 53"
  by (metis of_nat_less_iff of_nat_numeral of_nat_power)

lemma random_below_lower_bound:
  assumes "0 \<le> r" "r < 1" "0 < n" "n < 2 ^ 53" "of_int j \<le> r * real n"
  shows "j \<le> random_below r n"
proof (cases "r * real n = 0")
  case True
  from assms(5) have "j \<le> 0" unfolding True by simp
  then show ?thesis unfolding random_below_def True by simp
next
  case False
  moreover from assms(1) have "0 \<le> r * real n" by simp
  ultimately have x: "0 < r * real n" by linarith
  from assms have "r * real n < real n" by simp
  with nat_less_2_53 [OF assms(4)] have x53: "r * real n < 2 ^ 53" by linarith
  from round_double_ge_int [OF x x53 assms(5)]
  show ?thesis by (simp add: random_below_def le_floor_iff)
qed


lemma random_below_upper_bound:
  assumes "0 \<le> r" "0 < n" "n < 2 ^ 53" "j \<le> int n"
    and "r * real n + real n / 2 ^ 53 \<le> of_int j"
  shows "random_below r n < j"
proof (cases "r * real n = 0")
  case True
  have "0 < real n / 2 ^ 53" using assms(2) by simp
  with assms(5) have "0 < (of_int j :: real)" unfolding True by linarith
  then have "0 < j" by simp
  then show ?thesis unfolding random_below_def True by simp
next
  case False
  moreover from assms(1) have "0 \<le> r * real n" by simp
  ultimately have x: "0 < r * real n" by linarith
  have d: "0 < real n / 2 ^ 53" using assms(2) by simp
  from assms(4) have "(of_int j :: real) \<le> real n" by (simp add: of_int_le_iff [symmetric] del: of_int_le_iff)
  with assms(5) d have xn: "r * real n < real n" by linarith
  with nat_less_2_53 [OF assms(3)] have x53: "r * real n < 2 ^ 53" by linarith
  from round_double_less_int [OF x x53 assms(5) half_quantum_less [OF x xn x53]]
  show ?thesis by (simp add: random_below_def floor_less_iff)
qed

text \<open>The drawn integer is a valid index: at least 0 and below \<open>n\<close>.\<close>

lemma random_below_range:
  assumes "unit_interval r" "0 < n" "n < 2 ^ 53"
  shows "0 \<le> random_below r n \<and> random_below r n < int n"
proof -
  from assms(1) have r: "0 \<le> r" "r < 1" by (simp_all add: unit_interval_def)
  define c :: real where "c = 1 / 2 ^ 53"
  from unit_interval_upper [OF assms(1)] have "r \<le> 1 - c" by (simp only: c_def)
  then have "r * real n \<le> (1 - c) * real n" by (intro mult_right_mono) simp_all
  also have "\<dots> = real n - real n * c" by (simp add: algebra_simps)
  finally have "r * real n + real n * c \<le> real n" by simp
  then have "r * real n + real n / 2 ^ 53 \<le> of_int (int n)" by (simp add: c_def)
  from random_below_upper_bound [OF r(1) assms(2,3) order_refl this]
  have "random_below r n < int n" .
  moreover have "0 \<le> random_below r n"
    using r assms(2) by (intro random_below_lower_bound [OF r assms(2,3)]) simp
  ultimately show ?thesis by simp
qed

text \<open>
  The integer \<open>j\<close> is drawn for every random number from \<open>j / n\<close> up to
  \<open>(j + 1) / n - 2\<^sup>-\<^sup>5\<^sup>3\<close>, and for no random number below \<open>j / n - 2\<^sup>-\<^sup>5\<^sup>3\<close> or from
  \<open>(j + 1) / n\<close> on.
\<close>

lemma random_below_drawn:
  assumes "0 \<le> r" "r < 1" "0 < n" "n < 2 ^ 53" "j < int n"
    and "of_int j / real n \<le> r" "r \<le> (of_int j + 1) / real n - 1 / 2 ^ 53"
  shows "random_below r n = j"
proof -
  from assms(3) have n: "0 < real n" by simp
  from assms(6) n have "of_int j \<le> r * real n" by (simp add: field_simps)
  from random_below_lower_bound [OF assms(1-4) this] have lo: "j \<le> random_below r n" .
  define c :: real where "c = 1 / 2 ^ 53"
  from assms(7) have "r \<le> (of_int j + 1) / real n - c" by (simp only: c_def)
  with n have "r * real n \<le> ((of_int j + 1) / real n - c) * real n"
    by (simp only: mult_le_cancel_right_pos)
  also have "\<dots> = of_int j + 1 - real n * c" using n by (simp add: field_simps)
  finally have "r * real n + real n * c \<le> of_int (j + 1)" by simp
  then have "r * real n + real n / 2 ^ 53 \<le> of_int (j + 1)" by (simp add: c_def)
  moreover from assms(5) have "j + 1 \<le> int n" by simp
  ultimately have "random_below r n < j + 1"
    by (intro random_below_upper_bound [OF assms(1,3,4)])
  with lo show ?thesis by simp
qed

lemma random_below_preimage:
  assumes "0 \<le> r" "r < 1" "0 < n" "n < 2 ^ 53" "random_below r n = j"
  shows "of_int j / real n - 1 / 2 ^ 53 \<le> r \<and> r < (of_int j + 1) / real n"
proof
  from assms(3) have n: "0 < real n" by simp
  show "r < (of_int j + 1) / real n"
  proof (rule ccontr)
    assume "\<not> r < (of_int j + 1) / real n"
    with n have "of_int (j + 1) \<le> r * real n" by (simp add: field_simps)
    from random_below_lower_bound [OF assms(1-4) this] assms(5) show False by simp
  qed
  show "of_int j / real n - 1 / 2 ^ 53 \<le> r"
  proof (cases "r * real n = 0")
    case True
    from assms(5) have "j = 0" unfolding random_below_def True by simp
    with assms(1) show ?thesis by simp
  next
    case False
    moreover from assms(1) have "0 \<le> r * real n" by simp
  ultimately have x: "0 < r * real n" by linarith
    from assms(2) n have xn: "r * real n < real n" by simp
    with nat_less_2_53 [OF assms(4)] have x53: "r * real n < 2 ^ 53" by linarith
    from assms(5) have "of_int j \<le> round_double (r * real n)"
      by (simp add: random_below_def [symmetric] le_floor_iff [symmetric] del: le_floor_iff)
    with round_double_near [OF x] half_quantum_less [OF x xn x53]
    have "of_int j - real n / 2 ^ 53 \<le> r * real n" by linarith
    define c :: real where "c = 1 / 2 ^ 53"
    from \<open>of_int j - real n / 2 ^ 53 \<le> r * real n\<close>
    have "of_int j - real n * c \<le> r * real n" by (simp add: c_def)
    moreover have "(of_int j / real n - c) * real n = of_int j - real n * c"
      using n by (simp add: field_simps)
    ultimately have "(of_int j / real n - c) * real n \<le> r * real n" by simp
    with n have "of_int j / real n - c \<le> r" by (simp only: mult_le_cancel_right_pos)
    then show ?thesis by (simp only: c_def)
  qed
qed

lemma is_double_half: "is_double (1 / 2)"
proof -
  have e: "exponent (1 / 2) = - 1" by (intro exponent_below_one) simp_all
  have h: "(0::real) < 1 / 2" "(1::real) / 2 < 2 ^ 53" by simp_all
  have inv: "1 / quantum (1 / 2) = 2 ^ 53"
    using inverse_quantum [OF h] by (simp add: e)
  have "(1 / 2) / quantum (1 / 2) = (1 / 2) * (1 / quantum (1 / 2))" by simp
  also have "\<dots> = of_int (2 ^ 52)" by (simp only: inv) simp
  finally have y: "(1 / 2) / quantum (1 / 2) = of_int (2 ^ 52)" .
  from inv quantum_pos [of "1 / 2"] have q: "quantum (1 / 2) = 1 / 2 ^ 53"
    by (simp add: field_simps)
  have "round_double (1 / 2)
      = quantum (1 / 2) * of_int (round_half_even ((1 / 2) / quantum (1 / 2)))"
    by (rule round_double_pos) simp
  also have "\<dots> = quantum (1 / 2) * of_int (round_half_even (of_int (2 ^ 52)))"
    by (simp only: y)
  also have "\<dots> = quantum (1 / 2) * of_int (2 ^ 52)"
    by (simp only: round_half_even_int)
  also have "\<dots> = 1 / 2" by (simp add: q)
  finally show ?thesis by (simp only: is_double_def)
qed

lemma unit_interval_half: "unit_interval (1 / 2)"
  by (simp add: unit_interval_def is_double_half)

lemma unit_interval_zero: "unit_interval 0"
  by (simp add: unit_interval_def is_double_def)

lemma random_below_zero [simp]: "random_below 0 n = 0"
  by (simp add: random_below_def)

lemma at_index_in_range:
  "0 \<le> i \<Longrightarrow> i < int (length xs) \<Longrightarrow> at_index xs i = Some (xs ! nat i)"
  by (simp add: at_index_def)

lemma nth_nat_mem:
  "0 \<le> i \<Longrightarrow> i < int (length xs) \<Longrightarrow> xs ! nat i \<in> set xs"
  by (rule nth_mem) (simp add: nat_less_iff)

lemma or_zero_id [simp]: "or_zero n = n"
  by (simp add: or_zero_def)

section \<open>The three branches of nextWord\<close>

lemma nextWord_review_branch:
  "reviewWord st = Some r \<Longrightarrow>
   nextWord g st = (resetCardState st)\<lparr> reviewWord := None, status := QUIZ \<rparr>"
  by (simp add: nextWord_def resetCardState_def)

lemma nextWord_inject:
  "reviewWord st = None \<Longrightarrow> injects st \<Longrightarrow>
   nextWord g st =
     (resetCardState st)\<lparr>
        reviewWord := at_index (reviewCandidates (mistakes st))
                        (random_below (g 0) (length (reviewCandidates (mistakes st)))),
        wordsSinceReview := 0,
        nextReviewThreshold := random_below (g 1) 11 + 10,
        status := QUIZ \<rparr>"
  by (simp add: nextWord_def resetCardState_def Math_random_def injects_def Let_def)

lemma nextWord_regular:
  "reviewWord st = None \<Longrightarrow> \<not> injects st \<Longrightarrow>
     reviewWord (nextWord g st) = None
   \<and> wordsSinceReview (nextWord g st) = wordsSinceReview st + 1
   \<and> nextReviewThreshold (nextWord g st) = nextReviewThreshold st
   \<and> mistakes (nextWord g st) = mistakes st"
  by (auto simp: nextWord_def resetCardState_def injects_def Let_def)

text \<open>The review candidates are the records with a streak below 3, in ledger order.\<close>

lemma reviewCandidates_eligible:
  "reviewCandidates ms = filter (\<lambda>m. consecutiveCorrect m < 3) ms"
  by (simp add: reviewCandidates_def)

lemma injects_eligible:
  "injects st \<longleftrightarrow>
     int (wordsSinceReview st + 1) \<ge> nextReviewThreshold st
   \<and> (\<exists>m \<in> set (mistakes st). consecutiveCorrect m < 3)"
  by (auto simp: injects_def reviewCandidates_eligible filter_empty_conv)

lemma eligible_length:
  assumes "length ms < 2 ^ 32"
  shows "length (filter (\<lambda>m. consecutiveCorrect m < 3) ms) < 2 ^ 53"
proof -
  have "length (filter (\<lambda>m. consecutiveCorrect m < 3) ms) \<le> length ms"
    by (rule length_filter_le)
  moreover have "(2::nat) ^ 32 \<le> 2 ^ 53" by (intro power_increasing) simp_all
  ultimately show ?thesis using assms by linarith
qed

section \<open>The review scheduler\<close>

text \<open>
  Claim C1. \<^verbatim>\<open>nextWord\<close> after a review word leaves \<open>wordsSinceReview\<close> and the
  threshold alone. After a regular word it works with the counter plus one: when
  that is at least \<open>nextReviewThreshold\<close> and some record of the ledger has
  \<open>consecutiveCorrect < 3\<close>, a review is injected. The injected record is a record of
  the ledger with \<open>consecutiveCorrect < 3\<close>, and it is the \<open>i\<close>-th such record for
  every random number from \<open>i / n\<close> to \<open>(i + 1) / n - 2 ^ (- 53)\<close>, \<open>n\<close> being their
  number; the counter becomes 0; the new threshold is an integer from 10 to 20, and
  it is \<open>k\<close> for every random number from \<open>(k - 10) / 11\<close> to
  \<open>(k - 9) / 11 - 2 ^ (- 53)\<close> and for none outside
  \<open>[(k - 10) / 11 - 2 ^ (- 53), (k - 9) / 11)\<close>: eleven intervals of the same length,
  up to the rounding of the double product at their ends. Otherwise nothing is
  injected, the counter is the old one plus one and the threshold is unchanged.
  When every record has a streak of 3 or more, or the ledger is empty, nothing is
  ever injected. The two random numbers are doubles in \<open>[0, 1)\<close>, and the ledger is
  shorter than the longest JavaScript array.
\<close>

theorem nextWord_review_scheduler:
  assumes g0: "unit_interval (g 0)" and g1: "unit_interval (g 1)"
    and len: "length (mistakes st) < 2 ^ 32"
  shows "(reviewWord st \<noteq> None \<longrightarrow>
            wordsSinceReview (nextWord g st) = wordsSinceReview st
          \<and> nextReviewThreshold (nextWord g st) = nextReviewThreshold st
          \<and> reviewWord (nextWord g st) = None)
       \<and> (reviewWord st = None
            \<and> int (wordsSinceReview st + 1) \<ge> nextReviewThreshold st
            \<and> (\<exists>m \<in> set (mistakes st). consecutiveCorrect m < 3) \<longrightarrow>
            (\<exists>r \<in> set (mistakes st).
                 consecutiveCorrect r < 3 \<and> reviewWord (nextWord g st) = Some r)
          \<and> (\<forall>i < length (filter (\<lambda>m. consecutiveCorrect m < 3) (mistakes st)).
                 real i / real (length (filter (\<lambda>m. consecutiveCorrect m < 3) (mistakes st))) \<le> g 0
               \<and> g 0 \<le> (real i + 1)
                          / real (length (filter (\<lambda>m. consecutiveCorrect m < 3) (mistakes st)))
                        - 1 / 2 ^ 53 \<longrightarrow>
                 reviewWord (nextWord g st)
                   = Some (filter (\<lambda>m. consecutiveCorrect m < 3) (mistakes st) ! i))
          \<and> wordsSinceReview (nextWord g st) = 0
          \<and> nextReviewThreshold (nextWord g st) \<in> {10..20}
          \<and> (\<forall>k \<in> {10..20}.
                 (real_of_int k - 10) / 11 \<le> g 1
               \<and> g 1 \<le> (real_of_int k - 9) / 11 - 1 / 2 ^ 53 \<longrightarrow>
                 nextReviewThreshold (nextWord g st) = k)
          \<and> (\<forall>k. nextReviewThreshold (nextWord g st) = k \<longrightarrow>
                 (real_of_int k - 10) / 11 - 1 / 2 ^ 53 \<le> g 1
               \<and> g 1 < (real_of_int k - 9) / 11))
       \<and> (reviewWord st = None
            \<and> \<not> (int (wordsSinceReview st + 1) \<ge> nextReviewThreshold st
                  \<and> (\<exists>m \<in> set (mistakes st). consecutiveCorrect m < 3)) \<longrightarrow>
            reviewWord (nextWord g st) = None
          \<and> wordsSinceReview (nextWord g st) = wordsSinceReview st + 1
          \<and> nextReviewThreshold (nextWord g st) = nextReviewThreshold st)
       \<and> ((\<forall>m \<in> set (mistakes st). 3 \<le> consecutiveCorrect m) \<longrightarrow>
            reviewWord (nextWord g st) = None)"
proof (intro conjI impI allI ballI)
  assume "reviewWord st \<noteq> None"
  then obtain r where r: "reviewWord st = Some r" by auto
  show "wordsSinceReview (nextWord g st) = wordsSinceReview st"
    and "nextReviewThreshold (nextWord g st) = nextReviewThreshold st"
    and "reviewWord (nextWord g st) = None"
    by (simp_all add: nextWord_review_branch [OF r] resetCardState_def)
next
  let ?cs = "filter (\<lambda>m. consecutiveCorrect m < 3) (mistakes st)"
  assume a: "reviewWord st = None
            \<and> int (wordsSinceReview st + 1) \<ge> nextReviewThreshold st
            \<and> (\<exists>m \<in> set (mistakes st). consecutiveCorrect m < 3)"
  then have none: "reviewWord st = None" and inj: "injects st"
    by (simp_all add: injects_eligible)
  from a have pos: "0 < length ?cs" by (auto simp: filter_empty_conv)
  note n53 = eligible_length [OF len]
  note eq = nextWord_inject [OF none inj, of g, unfolded reviewCandidates_eligible]
  from g0 g1 have r0: "0 \<le> g 0" "g 0 < 1" and r1: "0 \<le> g 1" "g 1 < 1"
    by (simp_all add: unit_interval_def)
  have c11: "(0::nat) < 11" "(11::nat) < 2 ^ 53" by simp_all
  note range0 = random_below_range [OF g0 pos n53]
  then have sel: "reviewWord (nextWord g st) = Some (?cs ! nat (random_below (g 0) (length ?cs)))"
    by (simp add: eq at_index_in_range)
  from range0 have mem: "?cs ! nat (random_below (g 0) (length ?cs)) \<in> set ?cs"
    by (intro nth_nat_mem) simp_all
  from mem sel
  show "\<exists>r \<in> set (mistakes st). consecutiveCorrect r < 3 \<and> reviewWord (nextWord g st) = Some r"
    by auto
  show "wordsSinceReview (nextWord g st) = 0" by (simp add: eq)
  show "nextReviewThreshold (nextWord g st) \<in> {10..20}"
    using random_below_range [OF g1 c11] by (simp add: eq)
  {
    fix i
    assume i: "i < length ?cs"
      and b: "real i / real (length ?cs) \<le> g 0
               \<and> g 0 \<le> (real i + 1) / real (length ?cs) - 1 / 2 ^ 53"
    from i have "int i < int (length ?cs)" by simp
    moreover from b have "of_int (int i) / real (length ?cs) \<le> g 0"
      and "g 0 \<le> (of_int (int i) + 1) / real (length ?cs) - 1 / 2 ^ 53" by simp_all
    ultimately have "random_below (g 0) (length ?cs) = int i"
      by (intro random_below_drawn [OF r0 pos n53])
    with i show "reviewWord (nextWord g st) = Some (?cs ! i)"
      by (simp add: eq at_index_def)
  }
  {
    fix k :: int
    assume k: "k \<in> {10..20}"
      and b: "(real_of_int k - 10) / 11 \<le> g 1
               \<and> g 1 \<le> (real_of_int k - 9) / 11 - 1 / 2 ^ 53"
    from k have "k - 10 < int 11" by simp
    moreover from b have "of_int (k - 10) / real 11 \<le> g 1"
      and "g 1 \<le> (of_int (k - 10) + 1) / real 11 - 1 / 2 ^ 53" by simp_all
    ultimately have "random_below (g 1) 11 = k - 10"
      by (intro random_below_drawn [OF r1 c11])
    then show "nextReviewThreshold (nextWord g st) = k" by (simp add: eq)
  }
  {
    fix k :: int
    assume "nextReviewThreshold (nextWord g st) = k"
    then have "random_below (g 1) 11 = k - 10" by (simp add: eq)
    from random_below_preimage [OF r1 c11 this]
    show "(real_of_int k - 10) / 11 - 1 / 2 ^ 53 \<le> g 1" and "g 1 < (real_of_int k - 9) / 11"
      by simp_all
  }
next
  assume a: "reviewWord st = None
            \<and> \<not> (int (wordsSinceReview st + 1) \<ge> nextReviewThreshold st
                  \<and> (\<exists>m \<in> set (mistakes st). consecutiveCorrect m < 3))"
  then have none: "reviewWord st = None" and ni: "\<not> injects st"
    by (simp_all add: injects_eligible)
  from nextWord_regular [OF none ni, of g]
  show "reviewWord (nextWord g st) = None"
    and "wordsSinceReview (nextWord g st) = wordsSinceReview st + 1"
    and "nextReviewThreshold (nextWord g st) = nextReviewThreshold st"
    by simp_all
next
  assume "\<forall>m \<in> set (mistakes st). 3 \<le> consecutiveCorrect m"
  then have ni: "\<not> injects st" by (auto simp: injects_eligible)
  show "reviewWord (nextWord g st) = None"
  proof (cases "reviewWord st")
    case None
    from nextWord_regular [OF None ni] show ?thesis by simp
  next
    case (Some r)
    then show ?thesis by (simp add: nextWord_review_branch [OF Some])
  qed
qed

theorem nextWord_review_scheduler_witness:
  "unit_interval (1 / 2)
 \<and> length (mistakes (initial\<lparr> mistakes := [rec1], wordsSinceReview := 9 \<rparr>)) < 2 ^ 32
 \<and> reviewWord (initial\<lparr> mistakes := [rec1], wordsSinceReview := 9 \<rparr>) = None
 \<and> consecutiveCorrect rec1 < 3
 \<and> reviewWord (nextWord (\<lambda>_. 1 / 2) (initial\<lparr> mistakes := [rec1], wordsSinceReview := 9 \<rparr>))
     = Some rec1
 \<and> wordsSinceReview (nextWord (\<lambda>_. 1 / 2) (initial\<lparr> mistakes := [rec1], wordsSinceReview := 9 \<rparr>))
     = 0
 \<and> nextReviewThreshold (nextWord (\<lambda>_. 1 / 2) (initial\<lparr> mistakes := [rec1], wordsSinceReview := 9 \<rparr>))
     = 15"
proof -
  let ?st = "initial\<lparr> mistakes := [rec1], wordsSinceReview := 9 \<rparr>"
  let ?g = "\<lambda>_::nat. 1 / 2 :: real"
  have u: "unit_interval (?g 0)" "unit_interval (?g 1)" by (simp_all add: unit_interval_half)
  have l: "length (mistakes ?st) < 2 ^ 32" by (simp add: initial_def)
  have m: "mistakes ?st = [rec1]" and n: "reviewWord ?st = None"
    and t: "nextReviewThreshold ?st = 10" and w: "wordsSinceReview ?st = 9"
    by (simp_all add: initial_def)
  have c: "consecutiveCorrect rec1 < 3" by (simp add: rec1_def)
  have f: "filter (\<lambda>m. consecutiveCorrect m < 3) (mistakes ?st) = [rec1]"
    by (simp add: m c)
  have cond: "reviewWord ?st = None
            \<and> int (wordsSinceReview ?st + 1) \<ge> nextReviewThreshold ?st
            \<and> (\<exists>m \<in> set (mistakes ?st). consecutiveCorrect m < 3)"
    by (simp add: n t w m c)
  from nextWord_review_scheduler [OF u l] cond
  have sel: "\<forall>i < length (filter (\<lambda>m. consecutiveCorrect m < 3) (mistakes ?st)).
                 real i / real (length (filter (\<lambda>m. consecutiveCorrect m < 3) (mistakes ?st))) \<le> ?g 0
               \<and> ?g 0 \<le> (real i + 1)
                          / real (length (filter (\<lambda>m. consecutiveCorrect m < 3) (mistakes ?st)))
                        - 1 / 2 ^ 53 \<longrightarrow>
                 reviewWord (nextWord ?g ?st)
                   = Some (filter (\<lambda>m. consecutiveCorrect m < 3) (mistakes ?st) ! i)"
    and zero: "wordsSinceReview (nextWord ?g ?st) = 0"
    and thr: "\<forall>k \<in> {10..20}.
                 (real_of_int k - 10) / 11 \<le> ?g 1
               \<and> ?g 1 \<le> (real_of_int k - 9) / 11 - 1 / 2 ^ 53 \<longrightarrow>
                 nextReviewThreshold (nextWord ?g ?st) = k"
    by blast+
  have "(1::real) / 2 ^ 53 \<le> 1 / 2 ^ 5" by (intro divide_left_mono power_increasing) simp_all
  then have e: "(1::real) / 2 ^ 53 \<le> 1 / 32" by simp
  from sel [unfolded f, rule_format, of 0] e
  have "reviewWord (nextWord ?g ?st) = Some rec1" by simp
  moreover from thr [rule_format, of 15] e
  have "nextReviewThreshold (nextWord ?g ?st) = 15" by simp
  ultimately show ?thesis using zero c l n unit_interval_half by blast
qed

section \<open>Advancing after a review word\<close>

lemma resetCardState_fields [simp]:
  "selectedOption (resetCardState st) = None"
  "wrongCandidates (resetCardState st) = []"
  "showReward (resetCardState st) = False"
  "status (resetCardState st) = status st"
  "words (resetCardState st) = words st"
  "currentIndex (resetCardState st) = currentIndex st"
  "mistakes (resetCardState st) = mistakes st"
  "reviewWord (resetCardState st) = reviewWord st"
  "wordsSinceReview (resetCardState st) = wordsSinceReview st"
  "nextReviewThreshold (resetCardState st) = nextReviewThreshold st"
  "initFetchPromise (resetCardState st) = initFetchPromise st"
  "pendingReveal (resetCardState st) = pendingReveal st"
  "pendingStart (resetCardState st) = pendingStart st"
  "pendingNext (resetCardState st) = pendingNext st"
  "alerts (resetCardState st) = alerts st"
  "console (resetCardState st) = console st"
  by (simp_all add: resetCardState_def)

text \<open>
  Claim C5. When the card just shown was a review record, \<^verbatim>\<open>nextWord\<close> clears the
  review record and returns to status \<^verbatim>\<open>QUIZ\<close> with the counter, the threshold, the
  batch, the batch index and the ledger as they were, so that the active card is
  again the card at the old batch index; the result does not depend on the random
  source, and no fetch is started: neither is consulted.
\<close>

theorem nextWord_after_review_frame:
  assumes "reviewWord st = Some r"
  shows "reviewWord (nextWord g st) = None
       \<and> status (nextWord g st) = QUIZ
       \<and> wordsSinceReview (nextWord g st) = wordsSinceReview st
       \<and> nextReviewThreshold (nextWord g st) = nextReviewThreshold st
       \<and> currentIndex (nextWord g st) = currentIndex st
       \<and> words (nextWord g st) = words st
       \<and> mistakes (nextWord g st) = mistakes st
       \<and> activeCard (nextWord g st) = at_index (words st) (int (currentIndex st))
       \<and> selectedOption (nextWord g st) = None
       \<and> wrongCandidates (nextWord g st) = []
       \<and> \<not> showReward (nextWord g st)
       \<and> pendingNext (nextWord g st) = pendingNext st
       \<and> pendingStart (nextWord g st) = pendingStart st
       \<and> nextWord g st = nextWord g' st"
  by (simp add: nextWord_review_branch [OF assms] activeCard_def)

theorem nextWord_after_review_frame_witness:
  "reviewWord (initial\<lparr> status := REVIEW, words := [card1, card2], currentIndex := 1,
        reviewWord := Some rec1, wordsSinceReview := 12, nextReviewThreshold := 10 \<rparr>) = Some rec1
   \<and> wordsSinceReview (nextWord (\<lambda>_. 0)
        (initial\<lparr> status := REVIEW, words := [card1, card2], currentIndex := 1,
           reviewWord := Some rec1, wordsSinceReview := 12, nextReviewThreshold := 10 \<rparr>)) = 12
   \<and> activeCard (nextWord (\<lambda>_. 0)
        (initial\<lparr> status := REVIEW, words := [card1, card2], currentIndex := 1,
           reviewWord := Some rec1, wordsSinceReview := 12, nextReviewThreshold := 10 \<rparr>)) = Some card2"
  using nextWord_after_review_frame [of "initial\<lparr> status := REVIEW, words := [card1, card2], currentIndex := 1,
           reviewWord := Some rec1, wordsSinceReview := 12, nextReviewThreshold := 10 \<rparr>" rec1
           "\<lambda>_. 0"]
  by (simp add: initial_def at_index_def)

section \<open>Ledger updates\<close>

lemma map_word_markCorrect [simp]: "map word (markCorrect r ms) = map word ms"
  by (simp add: markCorrect_def)

lemma map_word_markIncorrect [simp]: "map word (markIncorrect r ms) = map word ms"
  by (simp add: markIncorrect_def)

lemma length_markCorrect [simp]: "length (markCorrect r ms) = length ms"
  by (simp add: markCorrect_def)

lemma length_markIncorrect [simp]: "length (markIncorrect r ms) = length ms"
  by (simp add: markIncorrect_def)

lemma markCorrect_nth:
  "i < length ms \<Longrightarrow>
   markCorrect r ms ! i =
     (if word (ms ! i) = word r
      then (ms ! i)\<lparr> consecutiveCorrect := or_zero (consecutiveCorrect (ms ! i)) + 1 \<rparr>
      else ms ! i)"
  by (simp add: markCorrect_def)

lemma markIncorrect_nth:
  "i < length ms \<Longrightarrow>
   markIncorrect r ms ! i =
     (if word (ms ! i) = word r then (ms ! i)\<lparr> consecutiveCorrect := 0 \<rparr> else ms ! i)"
  by (simp add: markIncorrect_def)


text \<open>What \<^verbatim>\<open>handleAnswer\<close> does to the ledger when a review word is active.\<close>

lemma handleAnswer_review_mistakes:
  assumes "reviewWord st = Some r"
  shows "mistakes (handleAnswer now option st) =
           (if option = meaning r then markCorrect r (mistakes st)
            else if wrongCandidates st = [] then mistakes st
            else markIncorrect r (mistakes st))"
  using assms by (simp add: handleAnswer_def activeCard_def WordCard.truncate_def)

text \<open>
  Claim C10. An answer to a review word \<open>r\<close> (right, first wrong or second wrong)
  leaves the ledger with the same length and the same words at the same
  positions; a record with another word is unchanged, and a record with the word
  of \<open>r\<close> differs from the old one in \<open>consecutiveCorrect\<close> at most.
\<close>

theorem handleAnswer_review_frame:
  assumes "reviewWord st = Some r"
  shows "length (mistakes (handleAnswer now option st)) = length (mistakes st)
       \<and> map word (mistakes (handleAnswer now option st)) = map word (mistakes st)
       \<and> (\<forall>i < length (mistakes st).
             word (mistakes st ! i) \<noteq> word r \<longrightarrow>
             mistakes (handleAnswer now option st) ! i = mistakes st ! i)
       \<and> (\<forall>i < length (mistakes st).
             (mistakes (handleAnswer now option st) ! i)
               \<lparr> consecutiveCorrect := consecutiveCorrect (mistakes st ! i) \<rparr> = mistakes st ! i)"
  by (simp add: handleAnswer_review_mistakes [OF assms] markCorrect_nth markIncorrect_nth)

theorem handleAnswer_review_frame_witness:
  "reviewWord review1 = Some rec1
 \<and> mistakes review1 = [rec2, rec1]
 \<and> mistakes (handleAnswer 7 ''m'' review1) ! 0 = rec2
 \<and> mistakes (handleAnswer 7 ''m'' review1) = [rec2, rec1\<lparr> consecutiveCorrect := 3 \<rparr>]"
proof -
  have r: "reviewWord review1 = Some rec1"
    by (simp add: review1_def initial_def)
  have m: "mistakes (handleAnswer 7 ''m'' review1) = [rec2, rec1\<lparr> consecutiveCorrect := 3 \<rparr>]"
    by (simp add: handleAnswer_review_mistakes [OF r] markCorrect_def)
       (simp add: review1_def initial_def rec1_def rec2_def)
  have l: "mistakes review1 = [rec2, rec1]" by (simp add: review1_def initial_def)
  have "word (mistakes review1 ! 0) \<noteq> word rec1" "0 < length (mistakes review1)"
    by (simp_all add: l rec1_def rec2_def)
  with handleAnswer_review_frame [OF r, of 7 "''m''"]
  have "mistakes (handleAnswer 7 ''m'' review1) ! 0 = mistakes review1 ! 0" by blast
  with r m l show ?thesis by simp
qed

section \<open>The ledger keeps its words distinct\<close>


lemma list_ex_word_iff: "list_ex (\<lambda>m. word m = w) ms \<longleftrightarrow> w \<in> set (map word ms)"
  by (auto simp: list_ex_iff)

lemma addToMistakes_present:
  "word c \<in> set (map word prev) \<Longrightarrow> addToMistakes now c prev = prev"
  by (simp add: addToMistakes_def list_ex_word_iff)

lemma addToMistakes_absent:
  "word c \<notin> set (map word prev) \<Longrightarrow>
   addToMistakes now c prev = WordCard.extend c (MistakeRecord.fields now 0) # prev"
  by (simp add: addToMistakes_def list_ex_word_iff)

lemma extend_fields [simp]:
  "word (WordCard.extend c (MistakeRecord.fields now n)) = word c"
  "phonetic (WordCard.extend c (MistakeRecord.fields now n)) = phonetic c"
  "meaning (WordCard.extend c (MistakeRecord.fields now n)) = meaning c"
  "options (WordCard.extend c (MistakeRecord.fields now n)) = options c"
  "mnemonic (WordCard.extend c (MistakeRecord.fields now n)) = mnemonic c"
  "sentence (WordCard.extend c (MistakeRecord.fields now n)) = sentence c"
  "sentenceTranslation (WordCard.extend c (MistakeRecord.fields now n)) = sentenceTranslation c"
  "timestamp (WordCard.extend c (MistakeRecord.fields now n)) = now"
  "consecutiveCorrect (WordCard.extend c (MistakeRecord.fields now n)) = n"
  by (simp_all add: WordCard.extend_def MistakeRecord.fields_def)

lemma distinct_addToMistakes:
  "distinct (map word prev) \<Longrightarrow> distinct (map word (addToMistakes now c prev))"
  by (cases "word c \<in> set (map word prev)")
     (simp_all add: addToMistakes_present addToMistakes_absent del: set_map)

lemma distinct_removeMistake:
  "distinct (map word prev) \<Longrightarrow> distinct (map word (removeMistake w prev))"
  by (simp add: removeMistake_def distinct_map_filter)

text \<open>Every event changes the ledger by one of the four ledger updates, or not at all.\<close>

lemma handleAnswer_mistakes_cases:
  "accepts st option \<Longrightarrow>
     mistakes (handleAnswer now option st) = mistakes st
   \<or> (\<exists>r. reviewWord st = Some r \<and> status st = QUIZ \<and> \<not> showReward st
          \<and> mistakes (handleAnswer now option st) = markCorrect r (mistakes st))
   \<or> (\<exists>r. reviewWord st = Some r
          \<and> mistakes (handleAnswer now option st) = markIncorrect r (mistakes st))
   \<or> (\<exists>c. mistakes (handleAnswer now option st) = addToMistakes now c (mistakes st))"
  by (auto simp: handleAnswer_def accepts_def split: option.splits)

lemma step_mistakes_cases:
  "mistakes (step st ev) = mistakes st
   \<or> (\<exists>r. reviewWord st = Some r \<and> status st = QUIZ \<and> \<not> showReward st
          \<and> mistakes (step st ev) = markCorrect r (mistakes st))
   \<or> (\<exists>r. reviewWord st = Some r \<and> mistakes (step st ev) = markIncorrect r (mistakes st))
   \<or> (\<exists>now c. mistakes (step st ev) = addToMistakes now c (mistakes st))
   \<or> (\<exists>w. mistakes (step st ev) = removeMistake w (mistakes st))"
proof (cases ev)
  case StartTraining
  then show ?thesis by (simp add: startSession_def)
next
  case (SessionSettled k fresh)
  then show ?thesis
    by (simp add: startSessionResumed_def split: sum.splits option.splits)
next
  case (ChooseOption now option)
  then show ?thesis
    using handleAnswer_mistakes_cases [of st option now] by auto
next
  case RewardTimeout
  then show ?thesis by (simp add: rewardTimeout_def split: list.splits)
next
  case (Continue g)
  have "mistakes (nextWord g st) = mistakes st"
    by (simp add: nextWord_def Let_def Math_random_def split: option.splits)
  with Continue show ?thesis by simp
next
  case (BatchSettled fetched)
  then show ?thesis by (simp add: nextWordFetched_def split: sum.splits)
next
  case (ManualAdd now)
  then show ?thesis by (auto split: option.splits)
qed auto

lemma step_distinct:
  "distinct (map word (mistakes st)) \<Longrightarrow> distinct (map word (mistakes (step st ev)))"
  using step_mistakes_cases [of st ev]
  by (auto simp: distinct_addToMistakes distinct_removeMistake simp del: set_map)

lemma run_distinct:
  "distinct (map word (mistakes st)) \<Longrightarrow> distinct (map word (mistakes (run st evs)))"
  unfolding run_def
  by (induction evs arbitrary: st) (simp_all add: step_distinct)

text \<open>
  Claim C4. \<^verbatim>\<open>addToMistakes\<close> on a word that the ledger does not hold puts a record
  with the fields of the card, the current time and streak 0 in front of the old
  records; on a word that the ledger holds it returns the ledger as it is. It keeps
  the words of the ledger distinct, and so does every event of the user interface:
  a ledger without duplicate words never gets one.
\<close>

theorem addToMistakes_no_duplicates:
  "(word c \<notin> word ` set prev \<longrightarrow>
      addToMistakes now c prev =
        \<lparr> word = word c, phonetic = phonetic c, meaning = meaning c, options = options c,
          mnemonic = mnemonic c, sentence = sentence c,
          sentenceTranslation = sentenceTranslation c,
          timestamp = now, consecutiveCorrect = 0 \<rparr> # prev)
 \<and> (word c \<in> word ` set prev \<longrightarrow> addToMistakes now c prev = prev)
 \<and> (distinct (map word prev) \<longrightarrow> distinct (map word (addToMistakes now c prev)))
 \<and> (distinct (map word (mistakes st)) \<longrightarrow> distinct (map word (mistakes (run st evs))))"
proof (intro conjI impI)
  assume "word c \<notin> word ` set prev"
  then have "addToMistakes now c prev = WordCard.extend c (MistakeRecord.fields now 0) # prev"
    by (simp add: addToMistakes_absent)
  moreover have "WordCard.extend c (MistakeRecord.fields now 0) =
        \<lparr> word = word c, phonetic = phonetic c, meaning = meaning c, options = options c,
          mnemonic = mnemonic c, sentence = sentence c,
          sentenceTranslation = sentenceTranslation c,
          timestamp = now, consecutiveCorrect = 0 \<rparr>"
    by (cases c) (simp add: WordCard.extend_def MistakeRecord.fields_def)
  ultimately show "addToMistakes now c prev =
        \<lparr> word = word c, phonetic = phonetic c, meaning = meaning c, options = options c,
          mnemonic = mnemonic c, sentence = sentence c,
          sentenceTranslation = sentenceTranslation c,
          timestamp = now, consecutiveCorrect = 0 \<rparr> # prev"
    by simp
next
  assume "word c \<in> word ` set prev"
  then show "addToMistakes now c prev = prev" by (simp add: addToMistakes_present)
next
  assume "distinct (map word prev)"
  then show "distinct (map word (addToMistakes now c prev))" by (rule distinct_addToMistakes)
next
  assume "distinct (map word (mistakes st))"
  then show "distinct (map word (mistakes (run st evs)))" by (rule run_distinct)
qed

theorem addToMistakes_no_duplicates_witness:
  "word card1 \<notin> word ` set [rec2, rec1]
 \<and> distinct (map word [rec2, rec1])
 \<and> addToMistakes 9 card1 [rec2, rec1] =
     [\<lparr> word = ''candid'', phonetic = ''y'', meaning = ''p'', options = [''q'', ''p'', ''r'', ''s''],
        mnemonic = ''mn'', sentence = ''s'', sentenceTranslation = ''t'',
        timestamp = 9, consecutiveCorrect = 0 \<rparr>, rec2, rec1]
 \<and> word rec1 \<in> word ` set [rec2, rec1]
 \<and> addToMistakes 9 (WordCard.truncate rec1) [rec2, rec1] = [rec2, rec1]
 \<and> distinct (map word (addToMistakes 9 card1 [rec2, rec1]))"
proof -
  have h: "word card1 \<notin> word ` set [rec2, rec1]" "distinct (map word [rec2, rec1])"
    "word (WordCard.truncate rec1) \<in> word ` set [rec2, rec1]"
    by (simp_all add: card1_def rec1_def rec2_def WordCard.truncate_def)
  from addToMistakes_no_duplicates [of card1 "[rec2, rec1]" 9] h
  have a: "addToMistakes 9 card1 [rec2, rec1] =
        \<lparr> word = word card1, phonetic = phonetic card1, meaning = meaning card1,
          options = options card1, mnemonic = mnemonic card1, sentence = sentence card1,
          sentenceTranslation = sentenceTranslation card1,
          timestamp = 9, consecutiveCorrect = 0 \<rparr> # [rec2, rec1]"
    and d: "distinct (map word (addToMistakes 9 card1 [rec2, rec1]))"
    by blast+
  from addToMistakes_no_duplicates [of "WordCard.truncate rec1" "[rec2, rec1]" 9] h
  have b: "addToMistakes 9 (WordCard.truncate rec1) [rec2, rec1] = [rec2, rec1]"
    by blast
  have w: "word rec1 \<in> word ` set [rec2, rec1]" by simp
  from a have a': "addToMistakes 9 card1 [rec2, rec1] =
     [\<lparr> word = ''candid'', phonetic = ''y'', meaning = ''p'', options = [''q'', ''p'', ''r'', ''s''],
        mnemonic = ''mn'', sentence = ''s'', sentenceTranslation = ''t'',
        timestamp = 9, consecutiveCorrect = 0 \<rparr>, rec2, rec1]"
    by (simp add: card1_def)
  from h a' b d w show ?thesis by blast
qed

section \<open>Runs in which a fetch settles late\<close>

lemma run_append: "run st (xs @ ys) = run (run st xs) ys"
  by (simp add: run_def)

lemma run_Cons: "run st (ev # evs) = run (step st ev) evs"
  by (simp add: run_def)

lemma run_Nil: "run st [] = st"
  by (simp add: run_def)

lemmas trace_defs =
  run_Cons run_Nil startSession_def startSessionResumed_def resetCardState_def accepts_def
  activeCard_def at_index_def handleAnswer_def rewardTimeout_def nextWord_def nextWordFetched_def
  reviewCandidates_def markCorrect_def markIncorrect_def addToMistakes_def Math_random_def
  WordCard.truncate_def WordCard.extend_def MistakeRecord.fields_def Let_def

text \<open>After the first session the fetch started on its last card is pending.\<close>

lemma after_first_session:
  "run mounted first_session =
     initial\<lparr> mistakes := [rec1], words := [card1], wordsSinceReview := 1, pendingNext := 1 \<rparr>"
  by (simp add: first_session_def answer_and_continue_def mounted_def initial_def trace_defs
        card1_def rec1_def)

section \<open>The streak after a late batch\<close>

lemma second_session_started:
  "run (run mounted first_session) [StartTraining, SessionSettled 0 (Inr (replicate 10 card1))]
     = at_card 0"
  by (simp add: after_first_session at_card_def initial_def trace_defs)

lemma one_card:
  "i < 9 \<Longrightarrow> run (at_card i) answer_and_continue = at_card (Suc i)"
  by (simp add: answer_and_continue_def at_card_def initial_def trace_defs card1_def rec1_def)

lemma some_cards:
  "i + k \<le> 9 \<Longrightarrow> run (at_card i) (concat (replicate k answer_and_continue)) = at_card (i + k)"
  by (induction k arbitrary: i) (simp_all add: run_Nil run_append one_card)

text \<open>The advance from the tenth card injects the review of \<open>rec1\<close>.\<close>

lemma tenth_card:
  "run (at_card 9) answer_and_continue =
     (at_card 9)\<lparr> reviewWord := Some rec1, wordsSinceReview := 0 \<rparr>"
  by (simp add: answer_and_continue_def at_card_def initial_def trace_defs card1_def rec1_def)

lemma ten_cards:
  "run (at_card 0) (concat (replicate 10 answer_and_continue)) =
     (at_card 9)\<lparr> reviewWord := Some rec1, wordsSinceReview := 0 \<rparr>"
proof -
  have "replicate 10 answer_and_continue = replicate (9 + 1) answer_and_continue" by simp
  also have "\<dots> = replicate 9 answer_and_continue @ [answer_and_continue]"
    by (simp only: replicate_add) simp
  finally show ?thesis
    using some_cards [of 0 9] by (simp add: run_append tenth_card)
qed

lemma after_late_batch_after_review:
  "run mounted late_batch_after_review =
     (at_card 9)\<lparr> status := QUIZ, words := [card2], currentIndex := 0,
                  mistakes := [rec1\<lparr> consecutiveCorrect := 3 \<rparr>],
                  selectedOption := Some ''m'',
                  reviewWord := Some rec1, wordsSinceReview := 0, pendingNext := 0 \<rparr>"
  unfolding late_batch_after_review_def run_append second_session_started ten_cards
  by (simp add: at_card_def initial_def trace_defs rec1_def)

text \<open>
  Claim C2, on the code. The ledger read at the mount holds one record, \<open>rec1\<close>, with
  streak 2. In the run \<open>late_batch_after_review\<close> its review is injected and answered
  right, which takes the streak to 3, and the result is shown. The handler of the
  fetch that was still pending (lines 203-206) then sets the status to \<^verbatim>\<open>QUIZ\<close>
  without clearing the review record: the quiz is on the screen again for \<open>rec1\<close>,
  with all its options enabled, although its record has streak 3. Choosing the
  right option once more takes the streak of the record, which is still in the
  ledger, to 4.
\<close>

theorem consecutiveCorrect_four_after_late_batch:
  "map consecutiveCorrect (mistakes mounted) = [2]
 \<and> status (run mounted late_batch_after_review) = QUIZ
 \<and> reviewWord (run mounted late_batch_after_review) = Some rec1
 \<and> activeCard (run mounted late_batch_after_review) = Some (WordCard.truncate rec1)
 \<and> showReward (run mounted late_batch_after_review) = False
 \<and> wrongCandidates (run mounted late_batch_after_review) = []
 \<and> map word (mistakes (run mounted late_batch_after_review)) = [word rec1]
 \<and> map consecutiveCorrect (mistakes (run mounted late_batch_after_review)) = [3]
 \<and> map word (mistakes (step (run mounted late_batch_after_review) (ChooseOption 3 ''m'')))
      = [word rec1]
 \<and> map consecutiveCorrect
      (mistakes (step (run mounted late_batch_after_review) (ChooseOption 3 ''m''))) = [4]"
  unfolding after_late_batch_after_review
  by (simp add: mounted_def at_card_def initial_def trace_defs rec1_def)

section \<open>The second chance after a late batch\<close>

lemma after_late_batch_after_wrong:
  "run mounted late_batch_after_wrong =
     initial\<lparr> status := QUIZ, mistakes := [rec1], words := [card2],
              wrongCandidates := [''q''], pendingNext := 0 \<rparr>"
  unfolding late_batch_after_wrong_def run_append after_first_session
  by (simp add: initial_def trace_defs card1_def)

text \<open>
  Claim C3, on the code. In the run \<open>late_batch_after_wrong\<close> a first wrong option,
  \<open>q\<close>, is chosen on \<open>card1\<close>. The handler of the fetch that was still pending (lines
  203-206) then replaces the batch and sets the index and the status without
  \<^verbatim>\<open>resetCardState\<close>: \<open>card2\<close> is presented with the wrong candidate of \<open>card1\<close> still
  recorded. The first option chosen on \<open>card2\<close>, the wrong option \<open>v\<close>, is taken for a
  second mistake (lines 135-138): the card leaves the quiz for the result at once,
  with \<open>v\<close> as the selected option and no wrong candidate added, and goes to the
  ledger. \<open>card2\<close> had no second chance.
\<close>

theorem second_chance_lost_after_late_batch:
  "status (run mounted late_batch_after_wrong) = QUIZ
 \<and> activeCard (run mounted late_batch_after_wrong) = Some card2
 \<and> showReward (run mounted late_batch_after_wrong) = False
 \<and> wrongCandidates (run mounted late_batch_after_wrong) = [''q'']
 \<and> map word (mistakes (run mounted late_batch_after_wrong)) = [word rec1]
 \<and> status (step (run mounted late_batch_after_wrong) (ChooseOption 3 ''v'')) = REVIEW
 \<and> selectedOption (step (run mounted late_batch_after_wrong) (ChooseOption 3 ''v'')) = Some ''v''
 \<and> wrongCandidates (step (run mounted late_batch_after_wrong) (ChooseOption 3 ''v'')) = [''q'']
 \<and> map word (mistakes (step (run mounted late_batch_after_wrong) (ChooseOption 3 ''v'')))
      = [word card2, word rec1]"
  unfolding after_late_batch_after_wrong
  by (simp add: initial_def trace_defs card2_def rec1_def)

section \<open>Failure of a batch fetch\<close>

text \<open>
  Claim C6, on the code. \<^verbatim>\<open>startSession\<close> on a failed fetch goes to \<^verbatim>\<open>IDLE\<close>, calls
  \<^verbatim>\<open>alert\<close> and drops the prefetch, whether the failed promise is its own or the
  prefetch. \<^verbatim>\<open>nextWord\<close> on the last card of the batch goes to \<^verbatim>\<open>LOADING\<close>; when its
  fetch fails the handler goes to \<^verbatim>\<open>IDLE\<close> too, but only writes to the console: no
  alert is shown.
\<close>

theorem nextWord_fetch_failure_not_alerted:
  "status (run initial [StartTraining, SessionSettled 0 (Inl (ProviderError ''503''))]) = IDLE
 \<and> alerts (run initial [StartTraining, SessionSettled 0 (Inl (ProviderError ''503''))])
     = [''Failed to load words. Please check your connection or API key.'']
 \<and> initFetchPromise (run initial [StartTraining, SessionSettled 0 (Inl (ProviderError ''503''))])
     = None
 \<and> status (run (initial\<lparr> initFetchPromise := Some (Inl (ProviderError ''503'')) \<rparr>)
             [StartTraining, SessionSettled 0 (Inr [card1])]) = IDLE
 \<and> alerts (run (initial\<lparr> initFetchPromise := Some (Inl (ProviderError ''503'')) \<rparr>)
             [StartTraining, SessionSettled 0 (Inr [card1])])
     = [''Failed to load words. Please check your connection or API key.'']
 \<and> initFetchPromise (run (initial\<lparr> initFetchPromise := Some (Inl (ProviderError ''503'')) \<rparr>)
             [StartTraining, SessionSettled 0 (Inr [card1])]) = None
 \<and> status (run last1 [Continue (\<lambda>_. 0)]) = LOADING
 \<and> status (run last1 [Continue (\<lambda>_. 0), BatchSettled (Inl (ProviderError ''503''))]) = IDLE
 \<and> console (run last1 [Continue (\<lambda>_. 0), BatchSettled (Inl (ProviderError ''503''))])
     = [ProviderError ''503'']
 \<and> alerts (run last1 [Continue (\<lambda>_. 0), BatchSettled (Inl (ProviderError ''503''))]) = []"
  by (simp add: initial_def last1_def trace_defs card1_def card2_def)

section \<open>The size of a fetched batch\<close>

lemma length_shuffle_options [simp]: "length (shuffle_options g data) = length data"
  by (induction data arbitrary: g) (simp_all add: split_beta Let_def)

lemma fetchWordBatch_Inr:
  "fetchWordBatch parse_cards g response = Inr cards \<longleftrightarrow>
     (cards = [] \<and> (response = Inr None \<or> response = Inr (Some [])))
   \<or> (\<exists>txt data. response = Inr (Some txt) \<and> txt \<noteq> [] \<and> parse_cards txt = Inr data
          \<and> cards = shuffle_options g data)"
  by (auto simp: fetchWordBatch_def split: sum.splits option.splits)

lemma fetchWordBatch_Inl:
  "fetchWordBatch parse_cards g response = Inl e \<longleftrightarrow>
     response = Inl e
   \<or> (\<exists>txt. response = Inr (Some txt) \<and> txt \<noteq> [] \<and> parse_cards txt = Inl e)"
  by (auto simp: fetchWordBatch_def split: sum.splits option.splits)

theorem fetchWordBatch_batch_size_counterexample:
  "\<not> (case fetchWordBatch (\<lambda>_. Inr [card1]) (\<lambda>_. 0) (Inr None) of
         Inl e \<Rightarrow> True
       | Inr cards \<Rightarrow> length cards = 5)"
  by (simp add: fetchWordBatch_def)

text \<open>
  Claim C7, as the code has it. \<^verbatim>\<open>fetchWordBatch\<close> fails exactly when the request
  is rejected or parsing the response text throws. Otherwise it resolves with a
  sequence of cards: the empty sequence when the response has no text, else as many
  cards as the parsed response holds. No batch size is checked.
\<close>

theorem fetchWordBatch_outcomes:
  "(fetchWordBatch parse_cards g response = Inl e \<longleftrightarrow>
      response = Inl e
    \<or> (\<exists>txt. response = Inr (Some txt) \<and> txt \<noteq> [] \<and> parse_cards txt = Inl e))
 \<and> (fetchWordBatch parse_cards g response = Inr cards \<longrightarrow>
      (cards = [] \<and> (response = Inr None \<or> response = Inr (Some [])))
    \<or> (\<exists>txt data. response = Inr (Some txt) \<and> txt \<noteq> [] \<and> parse_cards txt = Inr data
           \<and> length cards = length data))"
proof (intro conjI impI)
  show "fetchWordBatch parse_cards g response = Inl e \<longleftrightarrow>
      response = Inl e
    \<or> (\<exists>txt. response = Inr (Some txt) \<and> txt \<noteq> [] \<and> parse_cards txt = Inl e)"
    by (rule fetchWordBatch_Inl)
next
  assume "fetchWordBatch parse_cards g response = Inr cards"
  then have "(cards = [] \<and> (response = Inr None \<or> response = Inr (Some [])))
   \<or> (\<exists>txt data. response = Inr (Some txt) \<and> txt \<noteq> [] \<and> parse_cards txt = Inr data
          \<and> cards = shuffle_options g data)"
    by (simp only: fetchWordBatch_Inr)
  then show "(cards = [] \<and> (response = Inr None \<or> response = Inr (Some [])))
    \<or> (\<exists>txt data. response = Inr (Some txt) \<and> txt \<noteq> [] \<and> parse_cards txt = Inr data
           \<and> length cards = length data)"
    by (elim disjE exE conjE) (simp_all only: length_shuffle_options, blast+)
qed

theorem fetchWordBatch_outcomes_witness:
  "fetchWordBatch (\<lambda>_. Inr [card1, card2]) (\<lambda>n. if even n then 1 / 4 else 3 / 4) (Inr (Some ''[...]''))
     = Inr [card1\<lparr> options := [''r'', ''q'', ''p'', ''s''] \<rparr>,
            card2\<lparr> options := [''v'', ''u'', ''x'', ''w''] \<rparr>]
 \<and> (\<exists>txt data. Inr (Some ''[...]'') = (Inr (Some txt) :: error + string option) \<and> txt \<noteq> []
        \<and> (\<lambda>_. Inr [card1, card2]) txt = (Inr data :: error + WordCard list)
        \<and> length [card1\<lparr> options := [''r'', ''q'', ''p'', ''s''] \<rparr>,
                   card2\<lparr> options := [''v'', ''u'', ''x'', ''w''] \<rparr>] = length data)"
proof -
  have e: "fetchWordBatch (\<lambda>_. Inr [card1, card2]) (\<lambda>n. if even n then 1 / 4 else 3 / 4) (Inr (Some ''[...]''))
     = Inr [card1\<lparr> options := [''r'', ''q'', ''p'', ''s''] \<rparr>,
            card2\<lparr> options := [''v'', ''u'', ''x'', ''w''] \<rparr>]"
    by (simp add: fetchWordBatch_def card1_def card2_def Math_random_def)
  from fetchWordBatch_outcomes [of "\<lambda>_. Inr [card1, card2]" "\<lambda>n. if even n then 1 / 4 else 3 / 4" "Inr (Some ''[...]'')"
         "ProviderError []" "[card1\<lparr> options := [''r'', ''q'', ''p'', ''s''] \<rparr>,
            card2\<lparr> options := [''v'', ''u'', ''x'', ''w''] \<rparr>]"] e
  show ?thesis by simp
qed

section \<open>The shuffle of the options\<close>

lemma mset_insert_random: "mset (fst (insert_random g x ys)) = add_mset x (mset ys)"
  by (induction ys arbitrary: g) (simp_all add: split_beta Let_def)

lemma mset_sort_random: "mset (fst (sort_random g xs)) = mset xs"
  by (induction xs arbitrary: g) (simp_all add: split_beta mset_insert_random)

lemma shuffle_options_nth:
  "i < length data \<Longrightarrow>
   \<exists>g1. shuffle_options g data ! i
          = (data ! i)\<lparr> options := fst (sort_random g1 (options (data ! i))) \<rparr>"
proof (induction data arbitrary: g i)
  case Nil
  then show ?case by simp
next
  case (Cons item rest)
  show ?case
  proof (cases i)
    case 0
    then show ?thesis by (auto simp: split_beta)
  next
    case (Suc j)
    with Cons.prems have "j < length rest" by simp
    from Cons.IH [OF this, of "snd (sort_random g (options item))"] Suc
    show ?thesis by (simp add: split_beta)
  qed
qed

lemma shuffle_options_card:
  assumes "i < length data"
  shows "mset (options (shuffle_options g data ! i)) = mset (options (data ! i))
       \<and> shuffle_options g data ! i
           = (data ! i)\<lparr> options := options (shuffle_options g data ! i) \<rparr>"
proof -
  from shuffle_options_nth [OF assms, of g] obtain g1 where
    "shuffle_options g data ! i = (data ! i)\<lparr> options := fst (sort_random g1 (options (data ! i))) \<rparr>"
    by blast
  then show ?thesis by (simp add: mset_sort_random)
qed

text \<open>
  Claim C9. When \<^verbatim>\<open>fetchWordBatch\<close> resolves with cards, they are the cards parsed
  from the response, one for one and in the same order (or there are none). The
  options of each returned card are a permutation of the options the provider
  supplied for it, every other field is unchanged, and so the meaning is among the
  returned options whenever it was among the supplied ones.
\<close>

theorem fetchWordBatch_shuffle_permutation:
  assumes "fetchWordBatch parse_cards g response = Inr cards"
  shows "\<exists>data. (cards = [] \<and> data = []
                 \<or> (\<exists>txt. response = Inr (Some txt) \<and> parse_cards txt = Inr data))
          \<and> length cards = length data
          \<and> (\<forall>i < length cards.
                mset (options (cards ! i)) = mset (options (data ! i))
              \<and> cards ! i = (data ! i)\<lparr> options := options (cards ! i) \<rparr>
              \<and> (meaning (data ! i) \<in> set (options (data ! i)) \<longrightarrow>
                   meaning (cards ! i) \<in> set (options (cards ! i))))"
proof -
  from assms consider (empty) "cards = []"
    | (parsed) body "data" where "response = Inr (Some body)" "parse_cards body = Inr data"
        "cards = shuffle_options g data"
    unfolding fetchWordBatch_Inr by blast
  then show ?thesis
  proof cases
    case empty
    then show ?thesis by simp
  next
    case 2: parsed
    have "mset (options (cards ! i)) = mset (options (data ! i))
              \<and> cards ! i = (data ! i)\<lparr> options := options (cards ! i) \<rparr>
              \<and> (meaning (data ! i) \<in> set (options (data ! i)) \<longrightarrow>
                   meaning (cards ! i) \<in> set (options (cards ! i)))"
      if "i < length cards" for i
    proof -
      from that 2(3) have i: "i < length data" by simp
      note c = shuffle_options_card [OF i, of g, folded 2(3)]
      from c have m: "mset (options (cards ! i)) = mset (options (data ! i))"
        and e: "cards ! i = (data ! i)\<lparr> options := options (cards ! i) \<rparr>"
        by blast+
      from m have s: "set (options (cards ! i)) = set (options (data ! i))"
        by (rule mset_eq_setD)
      from e have "meaning (cards ! i) = meaning ((data ! i)\<lparr> options := options (cards ! i) \<rparr>)"
        by simp
      then have "meaning (cards ! i) = meaning (data ! i)" by simp
      with m e s show ?thesis by simp
    qed
    with 2 show ?thesis by auto
  qed
qed

theorem fetchWordBatch_shuffle_permutation_witness:
  "fetchWordBatch (\<lambda>_. Inr [card1, card2]) (\<lambda>n. if even n then 1 / 4 else 3 / 4)
       (Inr (Some ''[...]''))
     = Inr [card1\<lparr> options := [''r'', ''q'', ''p'', ''s''] \<rparr>,
            card2\<lparr> options := [''v'', ''u'', ''x'', ''w''] \<rparr>]
 \<and> mset [''r'', ''q'', ''p'', ''s''] = mset (options card1)
 \<and> mset [''v'', ''u'', ''x'', ''w''] = mset (options card2)"
proof -
  let ?cards = "[card1\<lparr> options := [''r'', ''q'', ''p'', ''s''] \<rparr>,
            card2\<lparr> options := [''v'', ''u'', ''x'', ''w''] \<rparr>]"
  have e: "fetchWordBatch (\<lambda>_. Inr [card1, card2]) (\<lambda>n. if even n then 1 / 4 else 3 / 4)
       (Inr (Some ''[...]'')) = Inr ?cards"
    by (simp add: fetchWordBatch_def card1_def card2_def Math_random_def)
  from fetchWordBatch_shuffle_permutation [OF e] obtain data where
    d: "?cards = [] \<and> data = [] \<or> Inr [card1, card2] = (Inr data :: error + WordCard list)"
    and p: "\<forall>i < length ?cards. mset (options (?cards ! i)) = mset (options (data ! i))"
    by blast
  from d have "data = [card1, card2]" by simp
  with p have q: "\<And>i. i < length ?cards \<Longrightarrow>
      mset (options (?cards ! i)) = mset (options ([card1, card2] ! i))"
    by simp
  have "mset [''r'', ''q'', ''p'', ''s''] = mset (options card1)"
    using q [of 0] by simp
  moreover have "mset [''v'', ''u'', ''x'', ''w''] = mset (options card2)"
    using q [of 1] by simp
  ultimately have "mset [''r'', ''q'', ''p'', ''s''] = mset (options card1)
      \<and> mset [''v'', ''u'', ''x'', ''w''] = mset (options card2)"
    by (rule conjI)
  with e show ?thesis by blast
qed

section \<open>Numbers are read back\<close>

lemma of_char_digit_char: "d < 10 \<Longrightarrow> (of_char (digit_char d) :: nat) = 48 + d"
  by (simp add: digit_char_def)

lemma is_digit_digit_char: "d < 10 \<Longrightarrow> is_digit (digit_char d)"
  by (simp add: is_digit_def of_char_digit_char)

lemma digit_char_eq_zero: "d < 10 \<Longrightarrow> digit_char d = CHR ''0'' \<longleftrightarrow> d = 0"
proof
  assume d: "d < 10" and "digit_char d = CHR ''0''"
  then have "(of_char (digit_char d) :: nat) = of_char (CHR ''0'')" by simp
  with d show "d = 0" by (simp add: of_char_digit_char)
next
  have "digit_char 0 = CHR ''0''" by code_simp
  moreover assume "d = 0"
  ultimately show "digit_char d = CHR ''0''" by simp
qed

declare show_nat.simps [simp del]

lemma show_nat_not_Nil: "show_nat n \<noteq> []"
  by (subst show_nat.simps) simp

lemma show_nat_digits: "c \<in> set (show_nat n) \<Longrightarrow> is_digit c"
proof (induction n arbitrary: c rule: show_nat.induct)
  case (1 n)
  show ?case
  proof (cases "n < 10")
    case True
    with "1.prems" show ?thesis
      by (subst (asm) show_nat.simps) (simp add: is_digit_digit_char)
  next
    case False
    with "1.prems" have "c \<in> set (show_nat (n div 10)) \<or> c = digit_char (n mod 10)"
      by (subst (asm) show_nat.simps) auto
    with False "1.IH" show ?thesis by (auto simp: is_digit_digit_char)
  qed
qed

lemma read_nat_snoc: "read_nat (ds @ [c]) = 10 * read_nat ds + (of_char c - 48)"
  by (simp add: read_nat_def)

lemma read_nat_show_nat: "read_nat (show_nat n) = n"
proof (induction n rule: show_nat.induct)
  case (1 n)
  show ?case
  proof (cases "n < 10")
    case True
    then show ?thesis
      by (subst show_nat.simps) (simp add: read_nat_def of_char_digit_char)
  next
    case False
    with "1.IH" have "read_nat (show_nat (n div 10)) = n div 10" by simp
    with False show ?thesis
      by (subst show_nat.simps) (simp add: read_nat_snoc of_char_digit_char)
  qed
qed

lemma hd_show_nat_zero: "hd (show_nat n) = CHR ''0'' \<longleftrightarrow> n = 0"
proof (induction n rule: show_nat.induct)
  case (1 n)
  show ?case
  proof (cases "n < 10")
    case True
    then show ?thesis
      by (subst show_nat.simps) (simp add: digit_char_eq_zero)
  next
    case False
    then have "n div 10 \<noteq> 0" by simp
    with False "1.IH" show ?thesis
      by (subst show_nat.simps) (simp add: show_nat_not_Nil)
  qed
qed

lemma show_nat_no_leading_zero:
  "\<not> (length (show_nat n) > 1 \<and> hd (show_nat n) = CHR ''0'')"
proof
  assume a: "length (show_nat n) > 1 \<and> hd (show_nat n) = CHR ''0''"
  then have "n = 0" by (simp add: hd_show_nat_zero)
  then have "length (show_nat n) = 1" by (subst show_nat.simps) simp
  with a show False by simp
qed

lemma delimited_not_digit:
  "delimited rest \<Longrightarrow> rest = [] \<or> \<not> is_digit (hd rest)"
  by (auto simp: delimited_def is_digit_def split: list.splits)

lemma takeWhile_prefix:
  "\<forall>x \<in> set xs. P x \<Longrightarrow> ys = [] \<or> \<not> P (hd ys) \<Longrightarrow> takeWhile P (xs @ ys) = xs"
  by (cases ys) (simp_all add: takeWhile_append2)

lemma dropWhile_prefix:
  "\<forall>x \<in> set xs. P x \<Longrightarrow> ys = [] \<or> \<not> P (hd ys) \<Longrightarrow> dropWhile P (xs @ ys) = ys"
  by (cases ys) (simp_all add: dropWhile_append2)

lemma parse_digits_show_nat:
  assumes "delimited rest"
  shows "parse_digits (show_nat n @ rest) = Some (n, rest)"
proof -
  have d: "\<forall>c \<in> set (show_nat n). is_digit c" by (simp add: show_nat_digits)
  note r = delimited_not_digit [OF assms]
  have t: "takeWhile is_digit (show_nat n @ rest) = show_nat n"
    using d r by (rule takeWhile_prefix)
  have dr: "dropWhile is_digit (show_nat n @ rest) = rest"
    using d r by (rule dropWhile_prefix)
  have e: "\<not> (rest \<noteq> [] \<and> hd rest \<in> {CHR ''.'', CHR ''e'', CHR ''E''})"
    using assms by (auto simp: delimited_def split: list.splits)
  show ?thesis
    unfolding parse_digits_def t dr Let_def
    using e show_nat_no_leading_zero [of n]
    by (simp add: show_nat_not_Nil read_nat_show_nat)
qed

lemma hd_show_nat_digit: "is_digit (hd (show_nat n))"
  using show_nat_not_Nil [of n] show_nat_digits [of "hd (show_nat n)" n] by simp

lemma parse_number_show_int:
  assumes "delimited rest"
  shows "parse_number (show_int i @ rest) = Some (JNumber i, rest)"
proof (cases "i < 0")
  case True
  then show ?thesis
    by (simp add: parse_number_def show_int_def parse_digits_show_nat [OF assms])
next
  case False
  obtain c cs where s: "show_nat (nat i) = c # cs"
    using show_nat_not_Nil [of "nat i"] by (cases "show_nat (nat i)") auto
  with hd_show_nat_digit [of "nat i"] have "c \<noteq> CHR ''-''"
    by (auto simp: is_digit_def)
  moreover have "parse_digits (c # cs @ rest) = Some (nat i, rest)"
    using parse_digits_show_nat [OF assms, of "nat i"] s by simp
  ultimately show ?thesis using False s
    by (simp add: parse_number_def show_int_def)
qed

section \<open>Strings are read back\<close>

lemma unhex_hex_digit: "k < 16 \<Longrightarrow> unhex (hex_digit k) = Some k"
proof -
  have "\<forall>k \<in> {0..<16}. unhex (hex_digit k) = Some k" by code_simp
  then show "k < 16 \<Longrightarrow> unhex (hex_digit k) = Some k" by simp
qed

lemma unhex_zero: "unhex (CHR ''0'') = Some 0"
  by (simp add: unhex_def)

lemma parse_chars_quote_char:
  assumes "parse_chars cs = Some (s, rest)"
  shows "parse_chars (quote_char c @ cs) = Some (c # s, rest)"
proof -
  consider "c = CHR 0x22" | "c = CHR 0x5C" | "c = CHR 0x08" | "c = CHR 0x0C" | "c = CHR 0x0A"
    | "c = CHR 0x0D" | "c = CHR 0x09"
    | (control) "c \<notin> {CHR 0x22, CHR 0x5C, CHR 0x08, CHR 0x0C, CHR 0x0A, CHR 0x0D, CHR 0x09}"
        "(of_char c :: nat) < 32"
    | (plain) "c \<notin> {CHR 0x22, CHR 0x5C, CHR 0x08, CHR 0x0C, CHR 0x0A, CHR 0x0D, CHR 0x09}"
        "\<not> (of_char c :: nat) < 32"
    by blast
  then show ?thesis
  proof cases
    case control
    let ?n = "of_char c :: nat"
    have q: "quote_char c = [CHR 0x5C, CHR ''u'', CHR ''0'', CHR ''0'',
               hex_digit (?n div 16), hex_digit (?n mod 16)]"
      using control by (simp add: quote_char_def)
    from control(2) have "?n div 16 < 16" "?n mod 16 < 16" by simp_all
    then have u: "unhex (hex_digit (?n div 16)) = Some (?n div 16)"
      "unhex (hex_digit (?n mod 16)) = Some (?n mod 16)"
      by (simp_all add: unhex_hex_digit)
    have "char_of (16 * (?n div 16) + ?n mod 16) = c" by simp
    with u assms show ?thesis by (simp add: q unhex_zero)
  next
    case plain
    then show ?thesis using assms by (simp add: quote_char_def)
  qed (use assms in \<open>simp_all add: quote_char_def\<close>)
qed

lemma parse_chars_quoted:
  "parse_chars (concat (map quote_char s) @ CHR 0x22 # rest) = Some (s, rest)"
  by (induction s) (simp_all add: parse_chars_quote_char)

lemma quote_eq: "quote s @ rest = CHR 0x22 # (concat (map quote_char s) @ CHR 0x22 # rest)"
  by (simp add: quote_def)

section \<open>Values are read back\<close>

lemma skip_ws_Cons: "\<not> is_space c \<Longrightarrow> skip_ws (c # cs) = c # cs"
  by (simp add: skip_ws_def)

lemma show_int_first:
  "\<exists>c cs. show_int i = c # cs \<and> (c = CHR ''-'' \<or> is_digit c)"
proof (cases "i < 0")
  case True
  then show ?thesis by (simp add: show_int_def)
next
  case False
  obtain c cs where "show_nat (nat i) = c # cs"
    using show_nat_not_Nil [of "nat i"] by (cases "show_nat (nat i)") auto
  with hd_show_nat_digit [of "nat i"] False show ?thesis
    by (simp add: show_int_def)
qed

lemma number_start:
  assumes "c = CHR ''-'' \<or> is_digit c"
  shows "\<not> is_space c" "c \<noteq> CHR ''[''" "c \<noteq> CHR ''{''" "c \<noteq> CHR 0x22" "c \<noteq> CHR ''n''"
    "c \<noteq> CHR ''t''" "c \<noteq> CHR ''f''" "c \<noteq> CHR '']''" "c \<noteq> CHR ''}''"
  using assms by (auto simp: is_digit_def is_space_def)

lemma stringify_first: "\<exists>c cs. JSON_stringify v = c # cs \<and> starts_value c"
proof (cases v)
  case (JNumber i)
  from show_int_first [of i] obtain c cs where
    "show_int i = c # cs" "c = CHR ''-'' \<or> is_digit c" by blast
  with JNumber number_start [of c] show ?thesis by (simp add: starts_value_def)
qed (simp_all add: starts_value_def is_space_def quote_def)

lemma join_Cons: "xs \<noteq> [] \<Longrightarrow> join (x # xs) = x @ CHR '','' # join xs"
  by (cases xs) simp_all

lemma delimited_simps [simp]:
  "delimited []" "delimited (CHR '','' # cs)" "delimited (CHR '']'' # cs)"
  "delimited (CHR ''}'' # cs)"
  by (simp_all add: delimited_def)

lemma is_space_simps [simp]:
  "\<not> is_space (CHR '','')" "\<not> is_space (CHR '']'')" "\<not> is_space (CHR ''}'')"
  "\<not> is_space (CHR '':'')" "\<not> is_space (CHR 0x22)"
  by (simp_all add: is_space_def)

lemma parse_elements_join:
  assumes IH: "\<And>v n rest. v \<in> set vs \<Longrightarrow> length (JSON_stringify v) \<le> n \<Longrightarrow> delimited rest \<Longrightarrow>
                 parse_value n (JSON_stringify v @ rest) = Some (v, rest)"
    and "vs \<noteq> []"
    and "length (join (map JSON_stringify vs)) < n"
  shows "parse_elements n (join (map JSON_stringify vs) @ CHR '']'' # rest) = Some (vs, rest)"
  using assms(2,1,3)
proof (induction vs arbitrary: n rule: list_nonempty_induct)
  case (single v)
  then obtain m where n: "n = Suc m" and len: "length (JSON_stringify v) \<le> m"
    by (cases n) auto
  from single.prems(1) [of v m "CHR '']'' # rest"] len
  have "parse_value m (JSON_stringify v @ CHR '']'' # rest) = Some (v, CHR '']'' # rest)"
    by simp
  then show ?case by (simp add: n skip_ws_Cons)
next
  case (cons v vs)
  let ?tail = "join (map JSON_stringify vs) @ CHR '']'' # rest"
  from cons.hyps have j: "join (JSON_stringify v # map JSON_stringify vs)
      = JSON_stringify v @ CHR '','' # join (map JSON_stringify vs)"
    by (simp add: join_Cons)
  with cons.prems(2) obtain m where n: "n = Suc m"
    and len: "length (JSON_stringify v) \<le> m"
    and len': "length (join (map JSON_stringify vs)) < m"
    by (cases n) auto
  from cons.prems(1) [of v m "CHR '','' # ?tail"] len
  have "parse_value m (JSON_stringify v @ CHR '','' # ?tail) = Some (v, CHR '','' # ?tail)"
    by simp
  moreover have "parse_elements m ?tail = Some (vs, rest)"
    using cons.prems(1) len' by (intro cons.IH) auto
  ultimately show ?case by (simp add: n j skip_ws_Cons)
qed

lemma parse_members_join:
  assumes IH: "\<And>k v n rest. (k, v) \<in> set kvs \<Longrightarrow> length (JSON_stringify v) \<le> n \<Longrightarrow>
                 delimited rest \<Longrightarrow> parse_value n (JSON_stringify v @ rest) = Some (v, rest)"
    and "kvs \<noteq> []"
    and "length (join (map member_string kvs)) < n"
  shows "parse_members n (join (map member_string kvs) @ CHR ''}'' # rest) = Some (kvs, rest)"
  using assms(2,1,3)
proof (induction kvs arbitrary: n rule: list_nonempty_induct)
  case (single kv)
  obtain k v where kv: "kv = (k, v)" by (cases kv)
  from single.prems(2) obtain m where n: "n = Suc m" and len: "length (JSON_stringify v) \<le> m"
    by (cases n) (auto simp: kv member_string_def)
  from single.prems(1) [of k v m "CHR ''}'' # rest"] len
  have "parse_value m (JSON_stringify v @ CHR ''}'' # rest) = Some (v, CHR ''}'' # rest)"
    by (simp add: kv)
  moreover have "member_string kv @ CHR ''}'' # rest
      = CHR 0x22 # (concat (map quote_char k) @ CHR 0x22 # CHR '':'' # JSON_stringify v
          @ CHR ''}'' # rest)"
    by (simp add: kv member_string_def quote_def)
  ultimately show ?case
    by (simp add: n kv parse_chars_quoted skip_ws_Cons)
next
  case (cons kv kvs)
  obtain k v where kv: "kv = (k, v)" by (cases kv)
  let ?tail = "join (map member_string kvs) @ CHR ''}'' # rest"
  from cons.hyps have j: "join (member_string kv # map member_string kvs)
      = member_string kv @ CHR '','' # join (map member_string kvs)"
    by (simp add: join_Cons)
  have ml: "length (member_string kv) = length (quote k) + 1 + length (JSON_stringify v)"
    by (simp add: kv member_string_def)
  from cons.prems(2) have "length (member_string kv) + 1 + length (join (map member_string kvs)) < n"
    by (simp add: j)
  with ml obtain m where n: "n = Suc m"
    and len: "length (JSON_stringify v) \<le> m"
    and len': "length (join (map member_string kvs)) < m"
    by (cases n) auto
  from cons.prems(1) [of k v m "CHR '','' # ?tail"] len
  have "parse_value m (JSON_stringify v @ CHR '','' # ?tail) = Some (v, CHR '','' # ?tail)"
    by (simp add: kv)
  moreover have "parse_members m ?tail = Some (kvs, rest)"
    using cons.prems(1) len' by (intro cons.IH) auto
  moreover have inp: "join (map member_string (kv # kvs)) @ CHR ''}'' # rest
      = CHR 0x22 # (concat (map quote_char k) @ CHR 0x22 # CHR '':'' # JSON_stringify v
          @ CHR '','' # ?tail)"
    unfolding list.map j by (simp add: kv member_string_def quote_def)
  ultimately show ?case
    unfolding inp n by (simp add: kv parse_chars_quoted skip_ws_Cons)
qed

lemma stringify_object:
  "JSON_stringify (JObject kvs) = CHR ''{'' # join (map member_string kvs) @ ''}''"
  unfolding member_string_def by simp

lemma member_string_first: "\<exists>cs. member_string kv = CHR 0x22 # cs"
  by (simp add: member_string_def quote_def)

lemma join_first:
  "xs \<noteq> [] \<Longrightarrow> hd xs = c # cs \<Longrightarrow> \<exists>ds. join xs = c # ds"
  by (cases xs rule: join.cases) auto

lemma parse_value_stringify:
  "length (JSON_stringify v) \<le> n \<Longrightarrow> delimited rest \<Longrightarrow>
   parse_value n (JSON_stringify v @ rest) = Some (v, rest)"
proof (induction v arbitrary: n rest)
  case JNull
  then obtain m where "n = Suc m" by (cases n) auto
  then show ?case by (simp add: skip_ws_Cons is_space_def parse_literal_def)
next
  case (JBool b)
  then obtain m where "n = Suc m" by (cases n; cases b) auto
  then show ?case by (cases b) (simp_all add: skip_ws_Cons is_space_def parse_literal_def)
next
  case (JNumber i)
  from show_int_first [of i] obtain c cs where
    s: "show_int i = c # cs" and c: "c = CHR ''-'' \<or> is_digit c" by blast
  from JNumber obtain m where n: "n = Suc m" by (cases n) (auto simp: s)
  from parse_number_show_int [OF JNumber.prems(2), of i]
  have "parse_number (c # cs @ rest) = Some (JNumber i, rest)" by (simp add: s)
  with number_start [OF c] show ?case by (simp add: n s skip_ws_Cons)
next
  case (JString s)
  then obtain m where n: "n = Suc m" by (cases n) (auto simp: quote_def)
  show ?case by (simp add: n quote_eq skip_ws_Cons parse_chars_quoted)
next
  case (JArray vs)
  then obtain m where n: "n = Suc m"
    and len: "length (join (map JSON_stringify vs)) < m"
    by (cases n) auto
  show ?case
  proof (cases "vs = []")
    case True
    then show ?thesis by (simp add: n skip_ws_Cons is_space_def)
  next
    case False
    from stringify_first [of "hd vs"] obtain c cs where
      h: "JSON_stringify (hd vs) = c # cs" and c: "starts_value c" by blast
    with False join_first [of "map JSON_stringify vs" c cs] obtain ds where
      j: "join (map JSON_stringify vs) = c # ds"
      by (auto simp: hd_map)
    have "parse_elements m (join (map JSON_stringify vs) @ CHR '']'' # rest) = Some (vs, rest)"
      using JArray.IH False len by (intro parse_elements_join) auto
    then have "parse_elements m (c # ds @ CHR '']'' # rest) = Some (vs, rest)"
      by (simp add: j)
    with c show ?thesis
      by (simp add: n j skip_ws_Cons is_space_def starts_value_def)
  qed
next
  case (JObject kvs)
  then obtain m where n: "n = Suc m"
    and len: "length (join (map member_string kvs)) < m"
    by (cases n) (auto simp: stringify_object simp del: JSON_stringify.simps)
  show ?case
  proof (cases "kvs = []")
    case True
    then show ?thesis by (simp add: n skip_ws_Cons is_space_def)
  next
    case False
    from member_string_first [of "hd kvs"] obtain cs where
      h: "member_string (hd kvs) = CHR 0x22 # cs" by blast
    with False join_first [of "map member_string kvs" "CHR 0x22" cs] obtain ds where
      j: "join (map member_string kvs) = CHR 0x22 # ds"
      by (auto simp: hd_map)
    have "parse_members m (join (map member_string kvs) @ CHR ''}'' # rest) = Some (kvs, rest)"
    proof (intro parse_members_join)
      fix k v n' rest'
      assume "(k, v) \<in> set kvs" "length (JSON_stringify v) \<le> n'" "delimited rest'"
      then show "parse_value n' (JSON_stringify v @ rest') = Some (v, rest')"
        by (intro JObject.IH [of "(k, v)" v]) auto
    qed (use False len in auto)
    then have "parse_members m (CHR 0x22 # ds @ CHR ''}'' # rest) = Some (kvs, rest)"
      by (simp add: j)
    then show ?thesis
      by (simp add: n j stringify_object skip_ws_Cons is_space_def del: JSON_stringify.simps)
  qed
qed

lemma JSON_parse_stringify: "JSON_parse (JSON_stringify v) = Inr v"
  using parse_value_stringify [of v "length (JSON_stringify v)" "[]"]
  by (simp add: JSON_parse_def skip_ws_def)

section \<open>The ledger is read back\<close>

lemma those_map_JString:
  "those (map ((\<lambda>v. case v of JString s \<Rightarrow> Some s | _ \<Rightarrow> None) \<circ> JString) xs) = Some xs"
  by (induction xs) simp_all

lemma json_to_record_inverse: "json_to_record (record_to_json m) = Some m"
  by (simp add: json_to_record_def record_to_json_def get_string_def get_int_def
        get_strings_def get_property_def those_map_JString)

lemma json_to_ledger_inverse: "json_to_ledger (ledger_to_json ms) = Some ms"
proof -
  have "those (map (json_to_record \<circ> record_to_json) ms) = Some ms"
    by (induction ms) (simp_all add: json_to_record_inverse)
  then show ?thesis by (simp add: json_to_ledger_def ledger_to_json_def)
qed

lemma stringify_not_empty: "JSON_stringify v \<noteq> []"
  using stringify_first [of v] by auto

text \<open>
  Claim C8. After the save effect has written a ledger to the store, the mount
  effect reads from the store exactly that ledger: the same records with the same
  fields, in the same order. On the way, the text the save effect writes parses
  back to the JavaScript value it was written from.
\<close>

theorem ledger_round_trip:
  "loadEffect (saveEffect st store) prefetch st0
     = Inr (st0\<lparr> mistakes := mistakes st, initFetchPromise := Some prefetch \<rparr>)
 \<and> JSON_parse (JSON_stringify (ledger_to_json (mistakes st))) = Inr (ledger_to_json (mistakes st))
 \<and> json_to_ledger (ledger_to_json (mistakes st)) = Some (mistakes st)"
  by (simp add: loadEffect_def saveEffect_def JSON_parse_stringify json_to_ledger_inverse
        stringify_not_empty)

theorem ledger_round_trip_witness:
  "loadEffect (saveEffect session1 Map.empty) (Inr []) initial
     = Inr (initial\<lparr> mistakes := [rec2, rec1], initFetchPromise := Some (Inr []) \<rparr>)"
  using ledger_round_trip [of session1 Map.empty "Inr []" initial]
  by (simp add: session1_def initial_def)

end
